theory Spec2Isabelle
  imports Main "HOL-Library.Word"
begin

section \<open>Raft leader election of \<^verbatim>\<open>05-consensus-raft/main.go\<close>\<close>

text \<open>
  The embedding follows \<^verbatim>\<open>high-level-design/05-advanced-concepts/05-consensus-raft/main.go\<close>.
  Go's \<^verbatim>\<open>int\<close> is the 64-bit two's-complement integer of the usual platforms: \<open>+\<close> wraps
  around and the comparisons of the source are the signed ones (\<open><s\<close>, \<open>\<le>s\<close>).
\<close>

subsection \<open>Data model\<close>

type_synonym go_int = "64 word"

text \<open>\<^verbatim>\<open>type RaftState int\<close> with the constants \<^verbatim>\<open>Follower\<close>, \<^verbatim>\<open>Candidate\<close>, \<^verbatim>\<open>Leader\<close>.\<close>

datatype RaftState = Follower | Candidate | Leader

text \<open>
  The three message structs. Both \<^verbatim>\<open>RequestVoteArgs\<close> and \<^verbatim>\<open>HeartbeatArgs\<close> have a field
  \<^verbatim>\<open>Term\<close>; record fields are global names, so the heartbeat's and the reply's fields carry a
  prefix.
\<close>

record RequestVoteArgs =
  Term :: go_int
  CandidateID :: go_int

record RequestVoteReply =
  ReplyTerm :: go_int
  VoteGranted :: bool

record HeartbeatArgs =
  HbTerm :: go_int
  LeaderID :: go_int

text \<open>
  A \<^verbatim>\<open>*time.Timer\<close>: armed with a duration in milliseconds, fired (its value was delivered on
  \<^verbatim>\<open>C\<close>), or stopped. The field \<^verbatim>\<open>electionTimer\<close> is a pointer, \<open>None\<close> is \<^verbatim>\<open>nil\<close>.
\<close>

datatype timer = Armed nat | Fired | Stopped

text \<open>
  \<^verbatim>\<open>*RaftNode\<close> pointers are addresses into a heap of nodes; \<open>None\<close> of \<open>addr option\<close> is
  \<^verbatim>\<open>nil\<close>. The mutex \<^verbatim>\<open>mu\<close> is not a field of the model: every method body that runs under
  the lock is one atomic function on the heap. The source's field \<^verbatim>\<open>id\<close> is \<open>node_id\<close>
  here (\<open>id\<close> is the identity function of HOL). The buffered channels (capacity 10) are
  the lists of the values they hold, oldest first.
\<close>

type_synonym addr = nat

record RaftNode =
  node_id :: go_int
  currentTerm :: go_int
  votedFor :: go_int
  state :: RaftState
  electionTimer :: "timer option"
  peers :: "addr list"
  voteReqChan :: "RequestVoteArgs list"
  voteReplyChan :: "RequestVoteReply list"
  heartbeatChan :: "HeartbeatArgs list"

type_synonym heap = "addr \<Rightarrow> RaftNode"

text \<open>
  The goroutines that the methods start with \<^verbatim>\<open>go\<close>:
  \<^item> \<open>SendVoteReq p args\<close> is \<^verbatim>\<open>p.voteReqChan <- RequestVoteArgs{...}\<close> of \<^verbatim>\<open>startElection\<close>;
  \<^item> \<open>Grant voter args\<close> is the closure of \<^verbatim>\<open>handleRequestVote\<close>, which captures the voter
    \<^verbatim>\<open>rn\<close> and \<^verbatim>\<open>args\<close> and runs \<^verbatim>\<open>rn.getPeer(args.CandidateID).receiveVote()\<close>;
  \<^item> \<open>Heartbeats a\<close> is \<^verbatim>\<open>go rn.sendHeartbeats()\<close> of \<^verbatim>\<open>receiveVote\<close>, at the head of its
    \<^verbatim>\<open>for\<close> loop (about to lock and look at the role);
  \<^item> \<open>HeartbeatsBatch a term ps\<close> is the same goroutine inside
    \<^verbatim>\<open>for _, peer := range rn.peers\<close>, with the \<^verbatim>\<open>term\<close> it has read and the peers \<open>ps\<close> still
    to be visited.
\<close>

datatype goroutine =
  SendVoteReq addr RequestVoteArgs
| Grant addr RequestVoteArgs
| Heartbeats addr
| HeartbeatsBatch addr go_int "addr list"

datatype panic = NilPointerDereference

subsection \<open>The methods of \<^verbatim>\<open>RaftNode\<close>\<close>

definition NewRaftNode :: "go_int \<Rightarrow> RaftNode" where
  "NewRaftNode i =
     \<lparr>node_id = i, currentTerm = 0, votedFor = - 1, state = Follower,
      electionTimer = None, peers = [], voteReqChan = [], voteReplyChan = [],
      heartbeatChan = []\<rparr>"

text \<open>
  \<^verbatim>\<open>150+rand.Intn(150)\<close> milliseconds: the random draw \<open>r\<close> (with \<open>r < 150\<close>) is an argument
  of every function that arms the timer.
\<close>

definition timeout_ms :: "nat \<Rightarrow> nat" where
  "timeout_ms r = 150 + r"

text \<open>\<^verbatim>\<open>resetElectionTimer\<close>: stop the old timer, if any, and install a new armed one.\<close>

definition resetElectionTimer :: "heap \<Rightarrow> addr \<Rightarrow> nat \<Rightarrow> heap" where
  "resetElectionTimer h a r = h(a := (h a)\<lparr>electionTimer := Some (Armed (timeout_ms r))\<rparr>)"

text \<open>
  \<^verbatim>\<open>if rn.electionTimer != nil { rn.electionTimer.Reset(...) }\<close> of the two handlers.
\<close>

definition timer_Reset :: "RaftNode \<Rightarrow> nat \<Rightarrow> RaftNode" where
  "timer_Reset rn r =
     (case electionTimer rn of
        None \<Rightarrow> rn
      | Some t \<Rightarrow> rn\<lparr>electionTimer := Some (Armed (timeout_ms r))\<rparr>)"

text \<open>
  \<^verbatim>\<open>startElection\<close>: a Leader returns at once. Otherwise the node becomes Candidate,
  increments its term, votes for itself, and starts one sending goroutine for every peer
  whose id differs from its own. The timer is not touched.
\<close>

definition startElection :: "heap \<Rightarrow> addr \<Rightarrow> heap \<times> goroutine list" where
  "startElection h a =
     (if state (h a) = Leader then (h, [])
      else
        let rn = (h a)\<lparr>state := Candidate,
                       currentTerm := currentTerm (h a) + 1,
                       votedFor := node_id (h a)\<rparr>;
            term = currentTerm rn
        in (h(a := rn),
            map (\<lambda>p. SendVoteReq p \<lparr>Term = term, CandidateID = node_id rn\<rparr>)
              (filter (\<lambda>p. node_id (h p) \<noteq> node_id rn) (peers rn))))"

text \<open>
  \<^verbatim>\<open>handleRequestVote\<close>. The result is the heap, the final value of the local \<^verbatim>\<open>reply\<close>
  (which the source never sends) and the goroutine started on a grant.
\<close>

definition handleRequestVote ::
  "heap \<Rightarrow> addr \<Rightarrow> RequestVoteArgs \<Rightarrow> nat \<Rightarrow> heap \<times> RequestVoteReply \<times> goroutine list" where
  "handleRequestVote h a args r =
     (let reply = \<lparr>ReplyTerm = currentTerm (h a), VoteGranted = False\<rparr>;
          rn1 = (if currentTerm (h a) <s Term args
                 then (h a)\<lparr>currentTerm := Term args, state := Follower, votedFor := - 1\<rparr>
                 else h a)
      in if Term args <s currentTerm rn1 then (h(a := rn1), reply, [])
         else if votedFor rn1 = - 1 \<or> votedFor rn1 = CandidateID args
         then (h(a := timer_Reset (rn1\<lparr>votedFor := CandidateID args\<rparr>) r),
               reply\<lparr>VoteGranted := True\<rparr>,
               [Grant a args])
         else (h(a := rn1), reply, []))"

text \<open>
  \<^verbatim>\<open>receiveVote\<close> takes no argument: a node that is Candidate becomes Leader and starts
  its heartbeat goroutine; any other node is left as it is.
\<close>

definition receiveVote :: "heap \<Rightarrow> addr \<Rightarrow> heap \<times> goroutine list" where
  "receiveVote h a =
     (if state (h a) \<noteq> Candidate then (h, [])
      else (h(a := (h a)\<lparr>state := Leader\<rparr>), [Heartbeats a]))"

definition handleHeartbeat :: "heap \<Rightarrow> addr \<Rightarrow> HeartbeatArgs \<Rightarrow> nat \<Rightarrow> heap" where
  "handleHeartbeat h a args r =
     (if currentTerm (h a) \<le>s HbTerm args
      then h(a := timer_Reset ((h a)\<lparr>currentTerm := HbTerm args, state := Follower\<rparr>) r)
      else h)"

text \<open>\<^verbatim>\<open>getPeer\<close>: the first peer with the given id, \<^verbatim>\<open>nil\<close> when there is none.\<close>

definition getPeer :: "heap \<Rightarrow> addr \<Rightarrow> go_int \<Rightarrow> addr option" where
  "getPeer h a i = find (\<lambda>p. node_id (h p) = i) (peers (h a))"

text \<open>
  The body of the goroutine that \<^verbatim>\<open>handleRequestVote\<close> starts on a grant:
  \<^verbatim>\<open>candidate := rn.getPeer(args.CandidateID); candidate.receiveVote()\<close>. With a \<^verbatim>\<open>nil\<close>
  candidate, \<^verbatim>\<open>receiveVote\<close> dereferences \<^verbatim>\<open>nil\<close> at \<^verbatim>\<open>rn.mu.Lock()\<close> and the program panics.
\<close>

definition grantVote :: "heap \<Rightarrow> addr \<Rightarrow> RequestVoteArgs \<Rightarrow> panic + heap \<times> goroutine list" where
  "grantVote h voter args =
     (case getPeer h voter (CandidateID args) of
        None \<Rightarrow> Inl NilPointerDereference
      | Some candidate \<Rightarrow> Inr (receiveVote h candidate))"

text \<open>
  \<^verbatim>\<open>sendHeartbeats\<close>, one step of the goroutine at a time. At the head of the loop it
  returns when the role is not Leader (the goroutine ends, \<open>[]\<close>); otherwise it reads the
  term and enters the inner loop. There it skips the peer with its own id and sends on
  \<^verbatim>\<open>peer.heartbeatChan\<close>, which blocks (\<open>None\<close>) while the channel holds 10 values. After
  the last peer it sleeps and is back at the head of the loop.
\<close>

definition chan_cap :: nat where
  "chan_cap = 10"

fun sendHeartbeats :: "heap \<Rightarrow> goroutine \<Rightarrow> (heap \<times> goroutine list) option" where
  "sendHeartbeats h (Heartbeats a) =
     (if state (h a) \<noteq> Leader then Some (h, [])
      else Some (h, [HeartbeatsBatch a (currentTerm (h a)) (peers (h a))]))"
| "sendHeartbeats h (HeartbeatsBatch a term []) = Some (h, [Heartbeats a])"
| "sendHeartbeats h (HeartbeatsBatch a term (p # ps)) =
     (if node_id (h p) = node_id (h a) then Some (h, [HeartbeatsBatch a term ps])
      else if length (heartbeatChan (h p)) < chan_cap
      then Some (h(p := (h p)\<lparr>heartbeatChan :=
                    heartbeatChan (h p) @ [\<lparr>HbTerm = term, LeaderID = node_id (h a)\<rparr>]\<rparr>),
                 [HeartbeatsBatch a term ps])
      else None)"
| "sendHeartbeats h g = None"

subsection \<open>The cluster: nodes, goroutines and their interleaving\<close>

text \<open>
  A cluster is the heap of its nodes (addresses \<open>0..<cluster_size\<close>, the slice
  \<^verbatim>\<open>nodes\<close> of \<^verbatim>\<open>main\<close>), the goroutines started with \<^verbatim>\<open>go\<close> that have not finished, and
  the panic that ended the program, if any. The main loop of every node (\<^verbatim>\<open>Start\<close>) is
  not in the list: its three \<^verbatim>\<open>select\<close> cases are the events \<open>Timeout\<close>,
  \<open>HandleRequestVote\<close> and \<open>HandleHeartbeat\<close>.
\<close>

record cluster =
  nodes :: heap
  cluster_size :: nat
  running :: "goroutine list"
  panicked :: "panic option"

text \<open>
  One step of a goroutine: \<open>None\<close> when it is blocked on a full channel, a panic, or
  the new heap with the goroutines that take its place.
\<close>

fun run_goroutine :: "heap \<Rightarrow> goroutine \<Rightarrow> (panic + heap \<times> goroutine list) option" where
  "run_goroutine h (SendVoteReq p args) =
     (if length (voteReqChan (h p)) < chan_cap
      then Some (Inr (h(p := (h p)\<lparr>voteReqChan := voteReqChan (h p) @ [args]\<rparr>), []))
      else None)"
| "run_goroutine h (Grant voter args) = Some (grantVote h voter args)"
| "run_goroutine h g = map_option Inr (sendHeartbeats h g)"

definition remove_nth :: "nat \<Rightarrow> 'a list \<Rightarrow> 'a list" where
  "remove_nth i xs = take i xs @ drop (Suc i) xs"

text \<open>
  The events. \<open>Timeout a\<close>: the armed election timer of node \<open>a\<close> fires and the main loop
  runs \<^verbatim>\<open>startElection\<close>. \<open>HandleRequestVote a r\<close> and \<open>HandleHeartbeat a r\<close>: the main
  loop of \<open>a\<close> receives the oldest value of the channel and runs the handler, \<open>r\<close> being
  the value of \<^verbatim>\<open>rand.Intn(150)\<close>. \<open>Run i\<close>: the \<open>i\<close>-th goroutine takes one step.
  Time is not part of the model: an armed timer may fire at any moment and a goroutine may
  be delayed for any number of events. What \<^verbatim>\<open>main\<close> does to the Leader after two seconds
  (it assigns \<^verbatim>\<open>Follower\<close> to its \<^verbatim>\<open>state\<close> and stops its timer) is not an event.
\<close>

datatype event =
  Timeout addr
| HandleRequestVote addr nat
| HandleHeartbeat addr nat
| Run nat

fun step_event :: "event \<Rightarrow> cluster \<Rightarrow> cluster option" where
  "step_event (Timeout a) c =
     (case electionTimer (nodes c a) of
        Some (Armed d) \<Rightarrow>
          (let h1 = (nodes c)(a := (nodes c a)\<lparr>electionTimer := Some Fired\<rparr>);
               (h2, gs) = startElection h1 a
           in Some (c\<lparr>nodes := h2, running := running c @ gs\<rparr>))
      | _ \<Rightarrow> None)"
| "step_event (HandleRequestVote a r) c =
     (case voteReqChan (nodes c a) of
        [] \<Rightarrow> None
      | args # rest \<Rightarrow>
          (let h1 = (nodes c)(a := (nodes c a)\<lparr>voteReqChan := rest\<rparr>);
               (h2, reply, gs) = handleRequestVote h1 a args r
           in Some (c\<lparr>nodes := h2, running := running c @ gs\<rparr>)))"
| "step_event (HandleHeartbeat a r) c =
     (case heartbeatChan (nodes c a) of
        [] \<Rightarrow> None
      | args # rest \<Rightarrow>
          (let h1 = (nodes c)(a := (nodes c a)\<lparr>heartbeatChan := rest\<rparr>)
           in Some (c\<lparr>nodes := handleHeartbeat h1 a args r\<rparr>)))"
| "step_event (Run i) c =
     (case run_goroutine (nodes c) (running c ! i) of
        None \<Rightarrow> None
      | Some (Inl p) \<Rightarrow> Some (c\<lparr>panicked := Some p\<rparr>)
      | Some (Inr (h, gs)) \<Rightarrow> Some (c\<lparr>nodes := h, running := remove_nth i (running c) @ gs\<rparr>))"

text \<open>
  An event is enabled on a running program, for a node of the cluster, a goroutine that
  exists and a random draw below 150.
\<close>

fun enabled :: "event \<Rightarrow> cluster \<Rightarrow> bool" where
  "enabled (Timeout a) c = (a < cluster_size c)"
| "enabled (HandleRequestVote a r) c = (a < cluster_size c \<and> r < 150)"
| "enabled (HandleHeartbeat a r) c = (a < cluster_size c \<and> r < 150)"
| "enabled (Run i) c = (i < length (running c))"

definition step :: "event \<Rightarrow> cluster \<Rightarrow> cluster option" where
  "step e c = (if panicked c = None \<and> enabled e c then step_event e c else None)"

text \<open>
  An execution: the events happen one after the other; \<open>None\<close> when one of them cannot
  happen. The states a cluster reaches are the results of its executions.
\<close>

fun run :: "event list \<Rightarrow> cluster \<Rightarrow> cluster option" where
  "run [] c = Some c"
| "run (e # es) c = (case step e c of None \<Rightarrow> None | Some c' \<Rightarrow> run es c')"

text \<open>
  \<^verbatim>\<open>main\<close>: \<^verbatim>\<open>NewRaftNode\<close> for the given ids, every node's \<^verbatim>\<open>peers\<close> is the whole slice,
  and \<^verbatim>\<open>Start\<close> arms every election timer (\<open>rs\<close> are the random draws). The source
  builds the ids 1, 2, 3.
\<close>

definition new_cluster :: "go_int list \<Rightarrow> (addr \<Rightarrow> nat) \<Rightarrow> cluster" where
  "new_cluster ids rs =
     \<lparr>nodes = (\<lambda>a. (NewRaftNode (if a < length ids then ids ! a else 0))
                     \<lparr>peers := [0..<length ids],
                      electionTimer := Some (Armed (timeout_ms (rs a)))\<rparr>),
      cluster_size = length ids,
      running = [],
      panicked = None\<rparr>"

definition main_cluster :: "(addr \<Rightarrow> nat) \<Rightarrow> cluster" where
  "main_cluster rs = new_cluster [1, 2, 3] rs"

text \<open>Two distinct nodes of the cluster that are Leader in the same term.\<close>

definition two_leaders :: "cluster \<Rightarrow> addr \<Rightarrow> addr \<Rightarrow> bool" where
  "two_leaders c a b \<longleftrightarrow>
     a < cluster_size c \<and> b < cluster_size c \<and> a \<noteq> b \<and>
     state (nodes c a) = Leader \<and> state (nodes c b) = Leader \<and>
     currentTerm (nodes c a) = currentTerm (nodes c b)"

subsection \<open>Quorum, as the specification words it\<close>

text \<open>
  The source computes no quorum and keeps no tally. This definition follows the words of
  the specification (\<open>floor(N/2) + 1\<close>), to be compared with what \<^verbatim>\<open>receiveVote\<close> does.
\<close>

definition spec_quorum :: "nat \<Rightarrow> nat" where
  "spec_quorum N = N div 2 + 1"

subsection \<open>Concrete nodes and executions\<close>

text \<open>The largest \<^verbatim>\<open>int\<close>, \<open>2^63 - 1\<close>.\<close>

definition max_int :: go_int where
  "max_int = 0x7FFFFFFFFFFFFFFF"

text \<open>A follower whose term is the largest \<^verbatim>\<open>int\<close>.\<close>

definition heap_max_term :: heap where
  "heap_max_term = (\<lambda>a. (NewRaftNode 1)\<lparr>currentTerm := max_int\<rparr>)"

text \<open>A follower in term 1 that has voted for node 2 in that term.\<close>

definition heap_voted :: heap where
  "heap_voted = (\<lambda>a. (NewRaftNode 1)\<lparr>currentTerm := 1, votedFor := 2\<rparr>)"

text \<open>
  Three nodes with the ids 1, 2, 3 of \<^verbatim>\<open>main\<close>; node 1 (address 0) is in its second
  candidacy, in term 2.
\<close>

definition heap_second_candidacy :: heap where
  "heap_second_candidacy =
     (\<lambda>a. (NewRaftNode (word_of_nat a + 1))\<lparr>peers := [0, 1, 2]\<rparr>)
       (0 := (NewRaftNode 1)\<lparr>peers := [0, 1, 2], currentTerm := 2, votedFor := 1,
                              state := Candidate\<rparr>)"

text \<open>The Leader of term 1.\<close>

definition heap_leader :: heap where
  "heap_leader = (\<lambda>a. (NewRaftNode 1)\<lparr>currentTerm := 1, votedFor := 1, state := Leader\<rparr>)"

text \<open>A cluster of one node, with id 1.\<close>

definition single_cluster :: cluster where
  "single_cluster = new_cluster [1] (\<lambda>a. 0)"

text \<open>The three nodes of \<^verbatim>\<open>main\<close> before \<^verbatim>\<open>Start\<close>: ids 1, 2, 3, every \<^verbatim>\<open>peers\<close> the whole slice.\<close>

definition heap_main :: heap where
  "heap_main = (\<lambda>a. (NewRaftNode (word_of_nat a + 1))\<lparr>peers := [0, 1, 2]\<rparr>)"

subsection \<open>Executions with timely grants, and the invariant of the election\<close>

text \<open>
  Two executions of the cluster of \<^verbatim>\<open>main\<close>, and one of a cluster of four nodes.
  In \<open>election_trace\<close> node 1 times out, node 2 receives its RequestVote and grants, and
  the grant is delivered. In \<open>stale_grant_trace\<close> the grant that node 2 gives to node 3 in
  term 1 is delivered only after node 3 has started its candidacy of term 3. In
  \<open>four_node_trace\<close> nodes 1 and 2 are candidates of term 1; node 3 grants to node 1 and
  node 4 grants to node 2.
\<close>

definition election_trace :: "event list" where
  "election_trace = [Timeout 0, Run 0, HandleRequestVote 1 0, Run 1]"

definition stale_grant_trace :: "event list" where
  "stale_grant_trace =
     [Timeout 2, Run 1, HandleRequestVote 1 0,
      Timeout 1, Run 3, HandleRequestVote 2 0, Run 2, HandleRequestVote 0 0,
      Timeout 0, Timeout 2, Run 4, HandleRequestVote 1 0,
      Run 7, Run 1]"

definition four_node_trace :: "event list" where
  "four_node_trace =
     [Timeout 0, Timeout 1, Run 1, Run 4, HandleRequestVote 2 0, HandleRequestVote 3 0,
      Run 4, Run 4]"

text \<open>
  Two more executions of the cluster of \<^verbatim>\<open>main\<close>. In \<open>stale_vote_trace\<close> node 2 is elected
  in term 1 with the votes of nodes 1 and 3, then node 3 times out, is elected in term 2 by
  node 2, and its first heartbeat reaches the channel of node 1. In \<open>split_vote_trace\<close> the
  three nodes time out one after the other and each handles the RequestVotes of the two
  others.
\<close>

definition stale_vote_trace :: "event list" where
  "stale_vote_trace =
     [Timeout 1, Run 0, HandleRequestVote 0 0, Run 1, Run 0, HandleRequestVote 2 0,
      Timeout 2, Run 3, HandleRequestVote 1 0, Run 3, Run 3, Run 3]"

definition split_vote_trace :: "event list" where
  "split_vote_trace =
     [Timeout 0, Timeout 1, Timeout 2, Run 0, Run 0, Run 0, Run 0, Run 0, Run 0,
      HandleRequestVote 0 0, HandleRequestVote 0 0, HandleRequestVote 1 0,
      HandleRequestVote 1 0, HandleRequestVote 2 0, HandleRequestVote 2 0]"

text \<open>
  A vote grant is timely when its goroutine runs while the candidate is in the term of the
  RequestVote that was granted; every other event is timely. The source does not check
  this. \<open>timely_run\<close> says that every event of an execution is timely.
\<close>

fun timely :: "event \<Rightarrow> cluster \<Rightarrow> bool" where
  "timely (Run i) c =
     (case running c ! i of
        Grant voter args \<Rightarrow>
          (case getPeer (nodes c) voter (CandidateID args) of
             None \<Rightarrow> True
           | Some candidate \<Rightarrow> currentTerm (nodes c candidate) = Term args)
      | _ \<Rightarrow> True)"
| "timely e c = True"

fun timely_run :: "event list \<Rightarrow> cluster \<Rightarrow> bool" where
  "timely_run [] c = True"
| "timely_run (e # es) c =
     (timely e c \<and> (case step e c of None \<Rightarrow> False | Some c' \<Rightarrow> timely_run es c'))"

text \<open>
  An event is regular when it is timely and, for an election timeout, the term of the node
  is not the largest \<^verbatim>\<open>int\<close> (so that \<^verbatim>\<open>currentTerm++\<close> does not wrap around).
\<close>

fun regular :: "event \<Rightarrow> cluster \<Rightarrow> bool" where
  "regular (Timeout a) c = (currentTerm (nodes c a) \<noteq> max_int)"
| "regular (Run i) c =
     (case running c ! i of
        Grant voter args \<Rightarrow>
          (case getPeer (nodes c) voter (CandidateID args) of
             None \<Rightarrow> True
           | Some candidate \<Rightarrow> currentTerm (nodes c candidate) = Term args)
      | _ \<Rightarrow> True)"
| "regular e c = True"

fun regular_run :: "event list \<Rightarrow> cluster \<Rightarrow> bool" where
  "regular_run [] c = True"
| "regular_run (e # es) c =
     (regular e c \<and> (case step e c of None \<Rightarrow> False | Some c' \<Rightarrow> regular_run es c'))"

text \<open>
  \<open>voted h v cid t\<close>: node \<open>v\<close> is beyond term \<open>t\<close>, or it is in term \<open>t\<close> with its vote
  given to \<open>cid\<close>. Once true it stays true, since a vote is only replaced when the term
  grows.
\<close>

definition voted :: "heap \<Rightarrow> addr \<Rightarrow> go_int \<Rightarrow> go_int \<Rightarrow> bool" where
  "voted h v cid t \<longleftrightarrow>
     t <s currentTerm (h v) \<or> (currentTerm (h v) = t \<and> votedFor (h v) = cid)"

text \<open>\<open>advances h h' v\<close>: what a step may do to the term and the vote of node \<open>v\<close>.\<close>

definition advances :: "heap \<Rightarrow> heap \<Rightarrow> addr \<Rightarrow> bool" where
  "advances h h' v \<longleftrightarrow>
     (currentTerm (h' v) = currentTerm (h v) \<and> votedFor (h' v) = votedFor (h v)) \<or>
     currentTerm (h v) <s currentTerm (h' v) \<or>
     (currentTerm (h' v) = currentTerm (h v) \<and> votedFor (h v) = - 1)"

text \<open>The candidate of a RequestVote held by \<open>p\<close> is a node of the cluster other than \<open>p\<close>.\<close>

definition candidate_ok :: "cluster \<Rightarrow> addr \<Rightarrow> RequestVoteArgs \<Rightarrow> bool" where
  "candidate_ok c p args \<longleftrightarrow>
     (\<exists>cand < cluster_size c. cand \<noteq> p \<and> node_id (nodes c cand) = CandidateID args)"

text \<open>
  The parts of the invariant: the cluster is as \<^verbatim>\<open>main\<close> builds it, with at most three
  nodes, distinct ids and no id \<open>-1\<close>; every RequestVote in flight names a candidate other
  than its receiver; a Candidate or Leader has voted for itself; the voter of a pending
  grant has voted for its candidate in the granted term; the pending grants of one voter
  for one term are for one candidate; every Leader is backed by another node that voted
  for it in its term and has no pending grant of that term for anyone else; and there are
  no two Leaders of one term.
\<close>

definition wf_cluster :: "cluster \<Rightarrow> bool" where
  "wf_cluster c \<longleftrightarrow>
     panicked c = None \<and> cluster_size c \<le> 3 \<and>
     (\<forall>a < cluster_size c. peers (nodes c a) = [0..<cluster_size c] \<and>
        node_id (nodes c a) \<noteq> - 1) \<and>
     (\<forall>a < cluster_size c. \<forall>b < cluster_size c.
        node_id (nodes c a) = node_id (nodes c b) \<longrightarrow> a = b)"

definition requests_ok :: "cluster \<Rightarrow> bool" where
  "requests_ok c \<longleftrightarrow>
     (\<forall>p args. SendVoteReq p args \<in> set (running c) \<longrightarrow> candidate_ok c p args) \<and>
     (\<forall>a < cluster_size c. \<forall>args \<in> set (voteReqChan (nodes c a)). candidate_ok c a args)"

definition self_voted :: "cluster \<Rightarrow> bool" where
  "self_voted c \<longleftrightarrow>
     (\<forall>a < cluster_size c.
        state (nodes c a) \<noteq> Follower \<longrightarrow> votedFor (nodes c a) = node_id (nodes c a))"

definition grants_ok :: "cluster \<Rightarrow> bool" where
  "grants_ok c \<longleftrightarrow>
     (\<forall>v args. Grant v args \<in> set (running c) \<longrightarrow>
        v < cluster_size c \<and> candidate_ok c v args \<and>
        voted (nodes c) v (CandidateID args) (Term args))"

definition grants_agree :: "cluster \<Rightarrow> bool" where
  "grants_agree c \<longleftrightarrow>
     (\<forall>v args args'. Grant v args \<in> set (running c) \<longrightarrow> Grant v args' \<in> set (running c) \<longrightarrow>
        Term args = Term args' \<longrightarrow> CandidateID args = CandidateID args')"

definition backed :: "cluster \<Rightarrow> addr \<Rightarrow> addr \<Rightarrow> bool" where
  "backed c a v \<longleftrightarrow>
     v < cluster_size c \<and> v \<noteq> a \<and>
     voted (nodes c) v (node_id (nodes c a)) (currentTerm (nodes c a)) \<and>
     (\<forall>args. Grant v args \<in> set (running c) \<longrightarrow> Term args = currentTerm (nodes c a) \<longrightarrow>
        CandidateID args = node_id (nodes c a))"

definition leader_backed :: "cluster \<Rightarrow> bool" where
  "leader_backed c \<longleftrightarrow>
     (\<forall>a < cluster_size c. state (nodes c a) = Leader \<longrightarrow> (\<exists>v. backed c a v))"

definition single_leader :: "cluster \<Rightarrow> bool" where
  "single_leader c \<longleftrightarrow> (\<forall>a b. \<not> two_leaders c a b)"

definition election_inv :: "cluster \<Rightarrow> bool" where
  "election_inv c \<longleftrightarrow>
     wf_cluster c \<and> requests_ok c \<and> self_voted c \<and> grants_ok c \<and> grants_agree c \<and>
     leader_backed c \<and> single_leader c"

text \<open>
  Every term in the cluster, in a node, in a channel or held by a goroutine, is at most
  \<open>k\<close>: after \<open>k\<close> events this holds, since only an election timeout creates a new term.
\<close>

definition bounded :: "int \<Rightarrow> cluster \<Rightarrow> bool" where
  "bounded k c \<longleftrightarrow>
     (\<forall>a. sint (currentTerm (nodes c a)) \<le> k) \<and>
     (\<forall>a. \<forall>args \<in> set (voteReqChan (nodes c a)). sint (Term args) \<le> k) \<and>
     (\<forall>a. \<forall>hb \<in> set (heartbeatChan (nodes c a)). sint (HbTerm hb) \<le> k) \<and>
     (\<forall>p args. SendVoteReq p args \<in> set (running c) \<longrightarrow> sint (Term args) \<le> k) \<and>
     (\<forall>a t ps. HeartbeatsBatch a t ps \<in> set (running c) \<longrightarrow> sint t \<le> k)"

subsection \<open>A single node, and the heartbeats of a demoted node\<close>

text \<open>What stays true of a cluster of one node: nothing is in flight and there is no Leader.\<close>

definition single_inv :: "cluster \<Rightarrow> bool" where
  "single_inv c \<longleftrightarrow>
     cluster_size c = 1 \<and> running c = [] \<and> peers (nodes c 0) = [0] \<and>
     voteReqChan (nodes c 0) = [] \<and> heartbeatChan (nodes c 0) = [] \<and>
     state (nodes c 0) \<noteq> Leader"

text \<open>
  \<open>pending_sends a c\<close> counts the peers that the heartbeat goroutines of node \<open>a\<close> still
  have to visit in the batches they are in. \<open>sends_heartbeat a e c\<close>: the event \<open>e\<close> is a
  goroutine of node \<open>a\<close> putting a heartbeat on a peer's channel. \<open>heartbeats_sent a es c\<close>
  counts these events in an execution, and \<open>never_leader a es c\<close> says that node \<open>a\<close> is not
  Leader in any state of the execution.
\<close>

fun batch_sends :: "addr \<Rightarrow> goroutine \<Rightarrow> nat" where
  "batch_sends a (HeartbeatsBatch b t ps) = (if b = a then length ps else 0)"
| "batch_sends a g = 0"

definition pending_sends :: "addr \<Rightarrow> cluster \<Rightarrow> nat" where
  "pending_sends a c = sum_list (map (batch_sends a) (running c))"

fun sends_now :: "addr \<Rightarrow> heap \<Rightarrow> goroutine \<Rightarrow> bool" where
  "sends_now a h (HeartbeatsBatch b t (p # ps)) =
     (b = a \<and> node_id (h p) \<noteq> node_id (h a) \<and> length (heartbeatChan (h p)) < chan_cap)"
| "sends_now a h g = False"

fun sends_heartbeat :: "addr \<Rightarrow> event \<Rightarrow> cluster \<Rightarrow> bool" where
  "sends_heartbeat a (Run i) c = (i < length (running c) \<and> sends_now a (nodes c) (running c ! i))"
| "sends_heartbeat a e c = False"

fun heartbeats_sent :: "addr \<Rightarrow> event list \<Rightarrow> cluster \<Rightarrow> nat" where
  "heartbeats_sent a [] c = 0"
| "heartbeats_sent a (e # es) c =
     (case step e c of
        None \<Rightarrow> 0
      | Some c' \<Rightarrow> (if sends_heartbeat a e c then 1 else 0) + heartbeats_sent a es c')"

fun never_leader :: "addr \<Rightarrow> event list \<Rightarrow> cluster \<Rightarrow> bool" where
  "never_leader a [] c = (state (nodes c a) \<noteq> Leader)"
| "never_leader a (e # es) c =
     (state (nodes c a) \<noteq> Leader \<and>
      (case step e c of None \<Rightarrow> True | Some c' \<Rightarrow> never_leader a es c'))"




section \<open>Properties\<close>

subsection \<open>Evaluating executions\<close>

lemma upt_3: "[0..<3] = [0, 1, 2]"
  by (simp add: upt_rec)

lemmas trace_defs =
  main_cluster_def new_cluster_def step_def NewRaftNode_def startElection_def
  handleRequestVote_def grantVote_def getPeer_def receiveVote_def Let_def two_leaders_def
  remove_nth_def chan_cap_def timer_Reset_def timeout_ms_def word_sless_alt upt_3

text \<open>
  The nodes of a new cluster are those of \<^verbatim>\<open>NewRaftNode\<close> with their peers, after the
  \<^verbatim>\<open>resetElectionTimer\<close> of \<^verbatim>\<open>Start\<close>.
\<close>

lemma new_cluster_started:
  "nodes (new_cluster ids rs) a =
     resetElectionTimer
       (\<lambda>b. (NewRaftNode (if b < length ids then ids ! b else 0))\<lparr>peers := [0..<length ids]\<rparr>)
       a (rs a) a"
  by (simp add: new_cluster_def resetElectionTimer_def)

subsection \<open>Signed 64-bit arithmetic\<close>

lemma sint_max_int: "sint max_int = 2 ^ 63 - 1"
  by (simp add: max_int_def)

lemma sint_succ: "sint (x :: go_int) < 2 ^ 63 - 1 \<Longrightarrow> sint (x + 1) = sint x + 1"
  apply (simp add: sint_word_add)
  apply (rule signed_take_bit_int_eq_self)
  using sint_ge [of x] apply simp
  apply simp
  done

lemma ne_max_int: "(x :: go_int) \<noteq> max_int \<longleftrightarrow> sint x < 2 ^ 63 - 1"
proof
  assume "x \<noteq> max_int"
  then have "sint x \<noteq> sint max_int" using signed_word_eqI by blast
  moreover have "sint x < 2 ^ 63" using sint_lt [of x] by simp
  ultimately show "sint x < 2 ^ 63 - 1" by (simp add: sint_max_int)
next
  assume "sint x < 2 ^ 63 - 1"
  then show "x \<noteq> max_int" using sint_max_int by auto
qed

lemma sless_succ: "(x :: go_int) \<noteq> max_int \<Longrightarrow> x <s x + 1"
  by (simp add: word_sless_alt ne_max_int sint_succ)

subsection \<open>What each method changes\<close>

lemma timer_Reset_fields [simp]:
  "node_id (timer_Reset rn r) = node_id rn"
  "currentTerm (timer_Reset rn r) = currentTerm rn"
  "votedFor (timer_Reset rn r) = votedFor rn"
  "state (timer_Reset rn r) = state rn"
  "peers (timer_Reset rn r) = peers rn"
  "voteReqChan (timer_Reset rn r) = voteReqChan rn"
  "heartbeatChan (timer_Reset rn r) = heartbeatChan rn"
  by (simp_all add: timer_Reset_def split: option.splits)

lemma handleRequestVote_term:
  "currentTerm (h b) \<le>s currentTerm (fst (handleRequestVote h a args r) b)"
  by (auto simp: handleRequestVote_def Let_def)

lemma handleHeartbeat_term:
  "currentTerm (h b) \<le>s currentTerm (handleHeartbeat h a hb r b)"
  by (auto simp: handleHeartbeat_def)

lemma receiveVote_term:
  "currentTerm (fst (receiveVote h a) b) = currentTerm (h b)"
  by (auto simp: receiveVote_def)

lemma startElection_term:
  "currentTerm (h a) \<noteq> max_int \<Longrightarrow>
   currentTerm (h b) \<le>s currentTerm (fst (startElection h a) b)"
  using sless_succ [of "currentTerm (h a)"]
  by (auto simp: startElection_def Let_def)

subsection \<open>Term monotonicity\<close>

text \<open>
  Claim C3, as stated, at the largest \<^verbatim>\<open>int\<close>: \<^verbatim>\<open>rn.currentTerm++\<close> of \<^verbatim>\<open>startElection\<close>
  wraps around to the smallest \<^verbatim>\<open>int\<close>, so the term after the election timeout is below
  the term before it.
\<close>

theorem term_wraps_at_max_int:
  "\<not> currentTerm (heap_max_term 0) \<le>s currentTerm (fst (startElection heap_max_term 0) 0)"
  by (simp add: heap_max_term_def startElection_def NewRaftNode_def Let_def max_int_def
      word_sle_eq)

text \<open>
  Claim C3, amended: handling a RequestVote, handling a Heartbeat and handling a vote
  grant leave the \<^verbatim>\<open>currentTerm\<close> of every node greater than or equal to its value before,
  whatever term the message bears; starting an election does so whenever the node's term
  is not the largest \<^verbatim>\<open>int\<close>.
\<close>

theorem term_never_decreases:
  "currentTerm (h b) \<le>s currentTerm (fst (handleRequestVote h a args r) b) \<and>
   currentTerm (h b) \<le>s currentTerm (handleHeartbeat h a hb r b) \<and>
   currentTerm (h b) \<le>s currentTerm (fst (receiveVote h a) b) \<and>
   (currentTerm (h a) \<noteq> max_int \<longrightarrow>
      currentTerm (h b) \<le>s currentTerm (fst (startElection h a) b))"
  by (simp add: handleRequestVote_term handleHeartbeat_term receiveVote_term
      startElection_term)

text \<open>Claim C3, the amended statement at a follower of term 1: its election leads to term 2.\<close>

theorem term_never_decreases_witness:
  "currentTerm (heap_voted 0) \<noteq> max_int \<and>
   currentTerm (heap_voted 0) \<le>s currentTerm (fst (startElection heap_voted 0) 0) \<and>
   currentTerm (fst (startElection heap_voted 0) 0) = 2"
  using term_never_decreases [where h = heap_voted and a = 0 and b = 0]
  by (simp add: heap_voted_def max_int_def NewRaftNode_def startElection_def Let_def)

subsection \<open>The vote and the term\<close>

lemma handleHeartbeat_votedFor:
  "votedFor (handleHeartbeat h a hb r b) = votedFor (h b)"
  by (simp add: handleHeartbeat_def)

text \<open>
  Claim C4 in the cluster of \<^verbatim>\<open>main\<close>, after the execution \<open>stale_vote_trace\<close>: node 1 is
  in term 1 and has voted for node 2 in that term, and the heartbeat of node 3, the Leader
  of term 2, is in its channel. Handling it raises \<^verbatim>\<open>currentTerm\<close> to 2 and leaves
  \<^verbatim>\<open>votedFor\<close> at 2, the vote cast in term 1. \<^verbatim>\<open>handleHeartbeat\<close> never assigns
  \<^verbatim>\<open>votedFor\<close>, while \<^verbatim>\<open>handleRequestVote\<close> sets it to \<open>-1\<close> when it adopts a higher term.
\<close>

theorem heartbeat_keeps_votedFor:
  "(case run stale_vote_trace (main_cluster (\<lambda>a. 0)) of
      None \<Rightarrow> False
    | Some c \<Rightarrow>
        currentTerm (nodes c 0) = 1 \<and> votedFor (nodes c 0) = 2 \<and>
        heartbeatChan (nodes c 0) = [\<lparr>HbTerm = 2, LeaderID = 3\<rparr>] \<and>
        (case step (HandleHeartbeat 0 0) c of
           None \<Rightarrow> False
         | Some c' \<Rightarrow> currentTerm (nodes c' 0) = 2 \<and> votedFor (nodes c' 0) = 2))"
  by (simp add: stale_vote_trace_def trace_defs handleHeartbeat_def word_sle_eq)

subsection \<open>A RequestVote of a lower term\<close>

text \<open>
  Claim C6: when the term of a RequestVote is strictly less than the node's
  \<^verbatim>\<open>currentTerm\<close>, the vote is not granted, no goroutine is started, and the heap is the one
  before: the term, role, vote and election timer of the node keep their values.
\<close>

theorem stale_request_rejected:
  "Term args <s currentTerm (h a) \<Longrightarrow>
   handleRequestVote h a args r =
     (h, \<lparr>ReplyTerm = currentTerm (h a), VoteGranted = False\<rparr>, [])"
  by (auto simp: handleRequestVote_def Let_def)

text \<open>Claim C6 at a follower of term 1 that receives a RequestVote of term 0.\<close>

theorem stale_request_rejected_witness:
  "Term \<lparr>Term = 0, CandidateID = 3\<rparr> <s currentTerm (heap_voted 0) \<and>
   handleRequestVote heap_voted 0 \<lparr>Term = 0, CandidateID = 3\<rparr> 7 =
     (heap_voted, \<lparr>ReplyTerm = 1, VoteGranted = False\<rparr>, [])"
proof -
  have h: "Term \<lparr>Term = 0, CandidateID = 3\<rparr> <s currentTerm (heap_voted 0)"
    by (simp add: heap_voted_def word_sless_alt)
  have "currentTerm (heap_voted 0) = 1" by (simp add: heap_voted_def)
  with h stale_request_rejected [where h = heap_voted and a = 0 and r = 7
      and args = "\<lparr>Term = 0, CandidateID = 3\<rparr>"]
  show ?thesis by simp
qed

subsection \<open>Becoming Leader\<close>

lemma startElection_state:
  "state (fst (startElection h a) b) = Leader \<longleftrightarrow> state (h b) = Leader"
  by (auto simp: startElection_def Let_def)

lemma handleRequestVote_state:
  "state (fst (handleRequestVote h a args r) b) = Leader \<Longrightarrow> state (h b) = Leader"
  by (auto simp: handleRequestVote_def Let_def split: if_splits)

lemma handleHeartbeat_state:
  "state (handleHeartbeat h a hb r b) = Leader \<Longrightarrow> state (h b) = Leader"
  by (auto simp: handleHeartbeat_def split: if_splits)

lemma receiveVote_state:
  "state (fst (receiveVote h a) b) = Leader \<longleftrightarrow>
   state (h b) = Leader \<or> (b = a \<and> state (h a) = Candidate)"
  by (auto simp: receiveVote_def)

text \<open>
  Claim C2, as stated, in a cluster of one node: after the election timeout the node has
  its own vote, which is the quorum \<open>floor(1/2) + 1 = 1\<close>, and it is Candidate, not Leader.
  No goroutine runs and no channel holds a message, so nothing will call \<^verbatim>\<open>receiveVote\<close>;
  the timer has fired and is not armed again.
\<close>

theorem single_node_never_leader:
  "spec_quorum (cluster_size single_cluster) = 1 \<and>
   (case step (Timeout 0) single_cluster of
      None \<Rightarrow> False
    | Some c \<Rightarrow> votedFor (nodes c 0) = node_id (nodes c 0) \<and>
               state (nodes c 0) = Candidate \<and> running c = [] \<and>
               voteReqChan (nodes c 0) = [] \<and> heartbeatChan (nodes c 0) = [] \<and>
               electionTimer (nodes c 0) = Some Fired)"
  by (simp add: single_cluster_def new_cluster_def spec_quorum_def step_def NewRaftNode_def
      startElection_def Let_def)

text \<open>
  Claim C2, amended: a node becomes Leader exactly when \<^verbatim>\<open>receiveVote\<close> runs on it while it
  is Candidate, that is on the first vote grant delivered to it, whatever the size of the
  cluster and without any count of voters; \<^verbatim>\<open>startElection\<close> and the two message handlers
  never make a Leader. Its own vote and one grant are the quorum \<open>floor(N/2) + 1\<close> exactly
  for \<open>N = 2\<close> and \<open>N = 3\<close>.
\<close>

theorem leader_on_first_grant:
  "(state (fst (receiveVote h a) b) = Leader \<longleftrightarrow>
      state (h b) = Leader \<or> (b = a \<and> state (h a) = Candidate)) \<and>
   (state (fst (startElection h a) b) = Leader \<longleftrightarrow> state (h b) = Leader) \<and>
   (state (fst (handleRequestVote h a args r) b) = Leader \<longrightarrow> state (h b) = Leader) \<and>
   (state (handleHeartbeat h a hb r b) = Leader \<longrightarrow> state (h b) = Leader) \<and>
   (spec_quorum N = 2 \<longleftrightarrow> N = 2 \<or> N = 3)"
  using startElection_state [of h a b] handleRequestVote_state [of h a args r b]
    handleHeartbeat_state [of h a hb r b] receiveVote_state [of h a b]
  by (auto simp: spec_quorum_def)

text \<open>
  Claim C2, the amended statement at a Candidate (which the grant makes Leader) and at a
  Leader (which the handlers leave Leader at these messages).
\<close>

theorem leader_on_first_grant_witness:
  "state (heap_second_candidacy 0) = Candidate \<and>
   state (fst (receiveVote heap_second_candidacy 0) 0) = Leader \<and>
   state (fst (handleRequestVote heap_leader 0 \<lparr>Term = 1, CandidateID = 2\<rparr> 0) 0) = Leader \<and>
   state (handleHeartbeat heap_leader 0 \<lparr>HbTerm = 0, LeaderID = 2\<rparr> 0 0) = Leader \<and>
   spec_quorum 3 = 2"
  using leader_on_first_grant [where h = heap_second_candidacy and a = 0 and b = 0 and N = 3]
    leader_on_first_grant [where h = heap_leader and a = 0 and b = 0 and N = 3 and r = 0
      and args = "\<lparr>Term = 1, CandidateID = 2\<rparr>" and hb = "\<lparr>HbTerm = 0, LeaderID = 2\<rparr>"]
  by (simp add: heap_second_candidacy_def heap_leader_def NewRaftNode_def handleRequestVote_def
      handleHeartbeat_def Let_def word_sless_alt word_sle_eq)

subsection \<open>Vote grants\<close>

text \<open>
  Claim C5, as stated, at a node in its second candidacy (term 2): the grant that node 2
  gave for the RequestVote of term 1 is not discarded, it makes the node Leader of term 2.
\<close>

theorem stale_grant_elects:
  "currentTerm (heap_second_candidacy 0) = 2 \<and>
   (case grantVote heap_second_candidacy 1 \<lparr>Term = 1, CandidateID = 1\<rparr> of
      Inl p \<Rightarrow> False
    | Inr (h, gs) \<Rightarrow> state (h 0) = Leader \<and> currentTerm (h 0) = 2 \<and> gs = [Heartbeats 0])"
  by (simp add: heap_second_candidacy_def grantVote_def getPeer_def receiveVote_def NewRaftNode_def)

text \<open>
  Claim C5, amended: a vote grant delivered to a node causes no state change unless the
  node is Candidate; a Candidate becomes Leader and starts its heartbeat goroutine. The
  term of the granted RequestVote plays no part: the grant has the same effect for every
  term.
\<close>

theorem grant_needs_candidate_only:
  "(state (h a) \<noteq> Candidate \<longrightarrow> receiveVote h a = (h, [])) \<and>
   (state (h a) = Candidate \<longrightarrow>
      receiveVote h a = (h(a := (h a)\<lparr>state := Leader\<rparr>), [Heartbeats a])) \<and>
   grantVote h voter (args\<lparr>Term := t\<rparr>) = grantVote h voter args"
  by (simp add: receiveVote_def grantVote_def)

text \<open>Claim C5, the amended statement at a Leader (no change) and at a Candidate.\<close>

theorem grant_needs_candidate_only_witness:
  "state (heap_leader 0) \<noteq> Candidate \<and> receiveVote heap_leader 0 = (heap_leader, []) \<and>
   state (heap_second_candidacy 0) = Candidate \<and>
   snd (receiveVote heap_second_candidacy 0) = [Heartbeats 0]"
  using grant_needs_candidate_only [where h = heap_leader and a = 0]
    grant_needs_candidate_only [where h = heap_second_candidacy and a = 0]
  by (simp add: heap_leader_def heap_second_candidacy_def NewRaftNode_def)

subsection \<open>Starting an election\<close>

lemma startElection_timer:
  "electionTimer (fst (startElection h a) b) = electionTimer (h b)"
  by (auto simp: startElection_def Let_def)

lemma startElection_effect:
  "state (h a) \<noteq> Leader \<Longrightarrow>
   startElection h a =
     (h(a := (h a)\<lparr>state := Candidate, currentTerm := currentTerm (h a) + 1,
                   votedFor := node_id (h a)\<rparr>),
      map (\<lambda>p. SendVoteReq p \<lparr>Term = currentTerm (h a) + 1, CandidateID = node_id (h a)\<rparr>)
        (filter (\<lambda>p. node_id (h p) \<noteq> node_id (h a)) (peers (h a))))"
  by (simp add: startElection_def Let_def)

text \<open>
  Claim C7 in the cluster of \<^verbatim>\<open>main\<close>, at the first election timeout of node 1: the term
  becomes 1, the node votes for itself and is Candidate, and a RequestVote of term 1 is on
  its way to each of the two other nodes. The election timer, however, is left as fired:
  \<^verbatim>\<open>startElection\<close> does not arm it again, and no further timeout of this node can happen.
\<close>

theorem election_leaves_timer_fired:
  "(case step (Timeout 0) (main_cluster (\<lambda>a. 0)) of
      None \<Rightarrow> False
    | Some c \<Rightarrow>
        currentTerm (nodes c 0) = 1 \<and> votedFor (nodes c 0) = 1 \<and>
        state (nodes c 0) = Candidate \<and>
        running c = [SendVoteReq 1 \<lparr>Term = 1, CandidateID = 1\<rparr>,
                     SendVoteReq 2 \<lparr>Term = 1, CandidateID = 1\<rparr>] \<and>
        electionTimer (nodes c 0) = Some Fired \<and>
        step (Timeout 0) c = None)"
  by (simp add: main_cluster_def new_cluster_def step_def NewRaftNode_def
      startElection_def Let_def)

text \<open>
  The consequence for a split vote: when the three nodes of \<^verbatim>\<open>main\<close> time out before any
  of them has handled a RequestVote, each is Candidate of term 1 with its own vote and
  rejects the two others. Then no goroutine runs, every channel is empty and every timer
  has fired: no event can happen any more, and the cluster stays without a Leader.
\<close>

lemma split_vote_state:
  "(case run split_vote_trace (main_cluster (\<lambda>a. 0)) of
      None \<Rightarrow> False
    | Some c \<Rightarrow>
        running c = [] \<and> panicked c = None \<and> cluster_size c = 3 \<and>
        (\<forall>a < 3. state (nodes c a) = Candidate \<and> currentTerm (nodes c a) = 1 \<and>
           electionTimer (nodes c a) = Some Fired \<and> voteReqChan (nodes c a) = [] \<and>
           heartbeatChan (nodes c a) = []))"
  by (simp add: split_vote_trace_def trace_defs All_less_Suc numeral_3_eq_3)

lemma split_vote_is_final:
  "(case run split_vote_trace (main_cluster (\<lambda>a. 0)) of
      None \<Rightarrow> False
    | Some c \<Rightarrow> (\<forall>e. step e c = None))"
proof -
  from split_vote_state obtain c where
    c: "run split_vote_trace (main_cluster (\<lambda>a. 0)) = Some c" and
    r: "running c = []" "cluster_size c = 3" and
    n: "\<And>a. a < 3 \<Longrightarrow> electionTimer (nodes c a) = Some Fired \<and>
           voteReqChan (nodes c a) = [] \<and> heartbeatChan (nodes c a) = []"
    by (auto split: option.splits)
  have "step e c = None" for e
    using r n by (cases e) (auto simp: step_def)
  with c show ?thesis by simp
qed

subsection \<open>Leaving the Leader role\<close>

text \<open>
  Claim C8, as stated, at the Leader of term 1: a Heartbeat of term 1 makes it Follower,
  with the term unchanged.
\<close>

theorem leader_steps_down_on_equal_term:
  "state (heap_leader 0) = Leader \<and> currentTerm (heap_leader 0) = 1 \<and>
   state (handleHeartbeat heap_leader 0 \<lparr>HbTerm = 1, LeaderID = 2\<rparr> 0 0) = Follower \<and>
   currentTerm (handleHeartbeat heap_leader 0 \<lparr>HbTerm = 1, LeaderID = 2\<rparr> 0 0) = 1"
  by (simp add: heap_leader_def handleHeartbeat_def NewRaftNode_def word_sle_eq)

text \<open>
  Claim C8, amended: a Leader becomes Follower when it handles a Heartbeat whose term is
  greater than or equal to its \<^verbatim>\<open>currentTerm\<close>, or a RequestVote whose term is strictly
  greater; at every other Heartbeat or RequestVote, at an election timeout and at a vote
  grant it remains Leader.
\<close>

theorem leader_demotion:
  "state (h a) = Leader \<Longrightarrow>
   (state (handleHeartbeat h a hb r a) =
      (if currentTerm (h a) \<le>s HbTerm hb then Follower else Leader)) \<and>
   (state (fst (handleRequestVote h a args r) a) =
      (if currentTerm (h a) <s Term args then Follower else Leader)) \<and>
   state (fst (startElection h a) a) = Leader \<and>
   state (fst (receiveVote h a) a) = Leader"
  by (auto simp: handleHeartbeat_def handleRequestVote_def startElection_def receiveVote_def
      Let_def)

text \<open>
  Claim C8, the amended statement at the Leader of term 1, with a Heartbeat of term 0 and
  a RequestVote of term 2.
\<close>

theorem leader_demotion_witness:
  "state (heap_leader 0) = Leader \<and>
   state (handleHeartbeat heap_leader 0 \<lparr>HbTerm = 0, LeaderID = 2\<rparr> 0 0) = Leader \<and>
   state (fst (handleRequestVote heap_leader 0 \<lparr>Term = 2, CandidateID = 2\<rparr> 0) 0) = Follower"
proof -
  have l: "state (heap_leader 0) = Leader" by (simp add: heap_leader_def NewRaftNode_def)
  have t: "currentTerm (heap_leader 0) = 1" by (simp add: heap_leader_def)
  show ?thesis
    using l leader_demotion [where h = heap_leader and a = 0 and r = 0
        and hb = "\<lparr>HbTerm = 0, LeaderID = 2\<rparr>"
        and args = "\<lparr>Term = 2, CandidateID = 2\<rparr>"]
    by (simp add: t word_sle_eq word_sless_alt)
qed

subsection \<open>The heartbeat goroutine\<close>


subsection \<open>Looking up the candidate\<close>

lemma find_None_set: "find P xs = None \<longleftrightarrow> (\<forall>x \<in> set xs. \<not> P x)"
  by (induction xs) auto

lemma find_Some_set: "find P xs = Some x \<Longrightarrow> x \<in> set xs \<and> P x"
  by (induction xs) (auto split: if_splits)

lemma getPeer_None:
  "getPeer h a i = None \<longleftrightarrow> (\<forall>p \<in> set (peers (h a)). node_id (h p) \<noteq> i)"
  by (simp add: getPeer_def find_None_set)

lemma getPeer_Some:
  "getPeer h a i = Some c \<Longrightarrow> c \<in> set (peers (h a)) \<and> node_id (h c) = i"
  using find_Some_set [of "\<lambda>p. node_id (h p) = i" "peers (h a)" c]
  by (simp add: getPeer_def)

lemma handleRequestVote_grant:
  "VoteGranted (fst (snd (handleRequestVote h a args r))) \<Longrightarrow>
   snd (snd (handleRequestVote h a args r)) = [Grant a args]"
  by (auto simp: handleRequestVote_def Let_def split: if_splits)

text \<open>
  Claim C10: a granted RequestVote starts the goroutine \<open>Grant voter args\<close>, whose body looks
  the candidate up with \<^verbatim>\<open>getPeer\<close> and calls \<^verbatim>\<open>receiveVote\<close> on the result. \<^verbatim>\<open>getPeer\<close> is
  \<^verbatim>\<open>nil\<close> exactly when no peer of the voter has the id \<^verbatim>\<open>CandidateID\<close>, and the goroutine
  panics with a nil dereference exactly then.
\<close>

theorem grant_panics_iff_unknown_candidate:
  "(VoteGranted (fst (snd (handleRequestVote h voter args r))) \<longrightarrow>
      snd (snd (handleRequestVote h voter args r)) = [Grant voter args]) \<and>
   run_goroutine h' (Grant voter args) = Some (grantVote h' voter args) \<and>
   (getPeer h' voter (CandidateID args) = None \<longleftrightarrow>
      (\<forall>p \<in> set (peers (h' voter)). node_id (h' p) \<noteq> CandidateID args)) \<and>
   (grantVote h' voter args = Inl NilPointerDereference \<longleftrightarrow>
      (\<forall>p \<in> set (peers (h' voter)). node_id (h' p) \<noteq> CandidateID args))"
  using handleRequestVote_grant [of h voter args r] getPeer_None [of h' voter "CandidateID args"]
  by (auto simp: grantVote_def split: option.splits)

text \<open>
  Claim C10 at node 2 of \<^verbatim>\<open>main\<close>: a RequestVote of the unknown candidate 7 is granted and
  its goroutine panics; a grant for candidate 1 does not.
\<close>

theorem grant_panics_iff_unknown_candidate_witness:
  "VoteGranted (fst (snd (handleRequestVote heap_main 1 \<lparr>Term = 1, CandidateID = 7\<rparr> 0))) \<and>
   snd (snd (handleRequestVote heap_main 1 \<lparr>Term = 1, CandidateID = 7\<rparr> 0)) =
     [Grant 1 \<lparr>Term = 1, CandidateID = 7\<rparr>] \<and>
   map (\<lambda>p. node_id (heap_main p)) (peers (heap_main 1)) = [1, 2, 3] \<and>
   grantVote heap_main 1 \<lparr>Term = 1, CandidateID = 7\<rparr> = Inl NilPointerDereference \<and>
   grantVote heap_main 1 \<lparr>Term = 1, CandidateID = 1\<rparr> \<noteq> Inl NilPointerDereference"
  using grant_panics_iff_unknown_candidate [where h = heap_main and h' = heap_main
      and voter = 1 and r = 0 and args = "\<lparr>Term = 1, CandidateID = 7\<rparr>"]
    grant_panics_iff_unknown_candidate [where h = heap_main and h' = heap_main
      and voter = 1 and r = 0 and args = "\<lparr>Term = 1, CandidateID = 1\<rparr>"]
  by (simp add: heap_main_def NewRaftNode_def handleRequestVote_def Let_def word_sless_alt
      timer_Reset_def)

section \<open>Safety of the election\<close>

subsection \<open>Lists of goroutines and the signed order\<close>

lemma set_remove_nth: "set (remove_nth i xs) \<subseteq> set xs"
  by (auto simp: remove_nth_def dest: in_set_takeD in_set_dropD)

lemma in_remove_nth: "x \<in> set (remove_nth i xs) \<Longrightarrow> x \<in> set xs"
  using set_remove_nth by fastforce

lemma sless_antisym: "\<not> (x :: go_int) <s y \<Longrightarrow> \<not> y <s x \<Longrightarrow> x = y"
  using signed.less_linear [of x y] by blast

lemma sless_irrefl [simp]: "\<not> (x :: go_int) <s x"
  by (rule signed.less_irrefl)

lemma sless_trans: "(x :: go_int) <s y \<Longrightarrow> y <s z \<Longrightarrow> x <s z"
  by (rule signed.less_trans)

lemma sless_asym: "(x :: go_int) <s y \<Longrightarrow> \<not> y <s x"
  using signed.less_asym [of x y] by blast

lemma sle_sless: "(x :: go_int) \<le>s y \<longleftrightarrow> x <s y \<or> x = y"
  by (rule signed.le_less)

subsection \<open>The effect of each event\<close>

lemma sendHeartbeats_core:
  "sendHeartbeats h g = Some (h', gs) \<Longrightarrow>
   node_id (h' b) = node_id (h b) \<and> peers (h' b) = peers (h b) \<and>
   currentTerm (h' b) = currentTerm (h b) \<and> votedFor (h' b) = votedFor (h b) \<and>
   state (h' b) = state (h b) \<and> voteReqChan (h' b) = voteReqChan (h b)"
  by (induction h g rule: sendHeartbeats.induct) (auto split: if_splits)

lemma sendHeartbeats_spawn:
  "sendHeartbeats h g = Some (h', gs) \<Longrightarrow> x \<in> set gs \<Longrightarrow>
   (\<exists>a. x = Heartbeats a) \<or> (\<exists>a t ps. x = HeartbeatsBatch a t ps)"
  by (induction h g rule: sendHeartbeats.induct) (auto split: if_splits)

lemma step_enabled:
  "step e c = Some c' \<Longrightarrow> panicked c = None \<and> enabled e c"
  by (simp add: step_def split: if_splits)

lemma step_Timeout_eq:
  assumes "step (Timeout a) c = Some c'"
  shows "a < cluster_size c \<and> panicked c = None \<and>
    c' = c\<lparr>nodes := fst (startElection ((nodes c)(a := (nodes c a)\<lparr>electionTimer := Some Fired\<rparr>)) a),
           running := running c @
             snd (startElection ((nodes c)(a := (nodes c a)\<lparr>electionTimer := Some Fired\<rparr>)) a)\<rparr>"
  using assms
  by (auto simp: step_def split_beta Let_def split: option.splits timer.splits if_splits)

lemma startElection_Leader:
  "state (h a) = Leader \<Longrightarrow> startElection h a = (h, [])"
  by (simp add: startElection_def)

lemma startElection_other:
  "state (h a) \<noteq> Leader \<Longrightarrow>
   startElection h a =
     (h(a := (h a)\<lparr>state := Candidate, currentTerm := currentTerm (h a) + 1,
                   votedFor := node_id (h a)\<rparr>),
      map (\<lambda>p. SendVoteReq p \<lparr>Term = currentTerm (h a) + 1, CandidateID = node_id (h a)\<rparr>)
        (filter (\<lambda>p. node_id (h p) \<noteq> node_id (h a)) (peers (h a))))"
  by (simp add: startElection_def Let_def)

lemma filter_ids_timer:
  "filter (\<lambda>p. node_id ((h(a := (h a)\<lparr>electionTimer := t\<rparr>)) p) \<noteq> node_id (h a)) ps =
   filter (\<lambda>p. node_id (h p) \<noteq> node_id (h a)) ps"
  by (rule filter_cong) auto

lemma startElection_fired:
  assumes "state (h a) \<noteq> Leader"
  shows "startElection (h(a := (h a)\<lparr>electionTimer := t\<rparr>)) a =
     (h(a := (h a)\<lparr>electionTimer := t, state := Candidate,
                   currentTerm := currentTerm (h a) + 1, votedFor := node_id (h a)\<rparr>),
      map (\<lambda>p. SendVoteReq p \<lparr>Term = currentTerm (h a) + 1, CandidateID = node_id (h a)\<rparr>)
        (filter (\<lambda>p. node_id (h p) \<noteq> node_id (h a)) (peers (h a))))"
proof -
  have "state ((h(a := (h a)\<lparr>electionTimer := t\<rparr>)) a) \<noteq> Leader"
    using assms by simp
  then show ?thesis
    using startElection_other [where h = "h(a := (h a)\<lparr>electionTimer := t\<rparr>)" and a = a]
    by (simp add: filter_ids_timer fun_upd_same fun_upd_upd del: fun_upd_apply)
qed

lemma step_Timeout:
  assumes "step (Timeout a) c = Some c'"
  shows "a < cluster_size c \<and> panicked c' = None \<and> cluster_size c' = cluster_size c \<and>
    (\<forall>b. node_id (nodes c' b) = node_id (nodes c b) \<and> peers (nodes c' b) = peers (nodes c b) \<and>
         voteReqChan (nodes c' b) = voteReqChan (nodes c b)) \<and>
    (\<forall>b. b \<noteq> a \<longrightarrow> currentTerm (nodes c' b) = currentTerm (nodes c b) \<and>
         votedFor (nodes c' b) = votedFor (nodes c b) \<and> state (nodes c' b) = state (nodes c b)) \<and>
    (if state (nodes c a) = Leader
     then currentTerm (nodes c' a) = currentTerm (nodes c a) \<and>
          votedFor (nodes c' a) = votedFor (nodes c a) \<and> state (nodes c' a) = Leader \<and>
          running c' = running c
     else currentTerm (nodes c' a) = currentTerm (nodes c a) + 1 \<and>
          votedFor (nodes c' a) = node_id (nodes c a) \<and> state (nodes c' a) = Candidate \<and>
          running c' = running c @
            map (\<lambda>p. SendVoteReq p \<lparr>Term = currentTerm (nodes c a) + 1,
                                     CandidateID = node_id (nodes c a)\<rparr>)
              (filter (\<lambda>p. node_id (nodes c p) \<noteq> node_id (nodes c a)) (peers (nodes c a))))"
proof (cases "state (nodes c a) = Leader")
  case True
  then show ?thesis
    using step_Timeout_eq [OF assms] by (simp add: startElection_Leader)
next
  case False
  then show ?thesis
    using step_Timeout_eq [OF assms]
    by (simp add: startElection_fired)
qed

lemma handleRequestVote_higher:
  "currentTerm (h a) <s Term args \<Longrightarrow>
   handleRequestVote h a args r =
     (h(a := timer_Reset ((h a)\<lparr>currentTerm := Term args, state := Follower,
                                votedFor := CandidateID args\<rparr>) r),
      \<lparr>ReplyTerm = currentTerm (h a), VoteGranted = True\<rparr>, [Grant a args])"
  by (simp add: handleRequestVote_def Let_def)

lemma handleRequestVote_lower:
  "Term args <s currentTerm (h a) \<Longrightarrow>
   handleRequestVote h a args r =
     (h, \<lparr>ReplyTerm = currentTerm (h a), VoteGranted = False\<rparr>, [])"
  by (auto simp: handleRequestVote_def Let_def dest: sless_asym)

lemma handleRequestVote_equal_grant:
  "currentTerm (h a) = Term args \<Longrightarrow>
   votedFor (h a) = - 1 \<or> votedFor (h a) = CandidateID args \<Longrightarrow>
   handleRequestVote h a args r =
     (h(a := timer_Reset ((h a)\<lparr>votedFor := CandidateID args\<rparr>) r),
      \<lparr>ReplyTerm = currentTerm (h a), VoteGranted = True\<rparr>, [Grant a args])"
  by (simp add: handleRequestVote_def Let_def)

lemma handleRequestVote_equal_deny:
  "currentTerm (h a) = Term args \<Longrightarrow>
   \<not> (votedFor (h a) = - 1 \<or> votedFor (h a) = CandidateID args) \<Longrightarrow>
   handleRequestVote h a args r =
     (h, \<lparr>ReplyTerm = currentTerm (h a), VoteGranted = False\<rparr>, [])"
  by (simp add: handleRequestVote_def Let_def)

lemma step_HandleRequestVote_eq:
  assumes "step (HandleRequestVote a r) c = Some c'"
  shows "a < cluster_size c \<and> panicked c = None \<and>
    (\<exists>args rest. voteReqChan (nodes c a) = args # rest \<and>
       c' = c\<lparr>nodes := fst (handleRequestVote
                  ((nodes c)(a := (nodes c a)\<lparr>voteReqChan := rest\<rparr>)) a args r),
              running := running c @ snd (snd (handleRequestVote
                  ((nodes c)(a := (nodes c a)\<lparr>voteReqChan := rest\<rparr>)) a args r))\<rparr>)"
  using assms
  by (auto simp: step_def split_beta Let_def split: list.splits if_splits)

lemma step_HandleRequestVote:
  assumes "step (HandleRequestVote a r) c = Some c'"
  shows "a < cluster_size c \<and> panicked c' = None \<and> cluster_size c' = cluster_size c \<and>
    (\<forall>b. node_id (nodes c' b) = node_id (nodes c b) \<and> peers (nodes c' b) = peers (nodes c b)) \<and>
    (\<forall>b. b \<noteq> a \<longrightarrow> currentTerm (nodes c' b) = currentTerm (nodes c b) \<and>
         votedFor (nodes c' b) = votedFor (nodes c b) \<and> state (nodes c' b) = state (nodes c b) \<and>
         voteReqChan (nodes c' b) = voteReqChan (nodes c b)) \<and>
    (\<exists>args. voteReqChan (nodes c a) = args # voteReqChan (nodes c' a) \<and>
       (if currentTerm (nodes c a) <s Term args
        then currentTerm (nodes c' a) = Term args \<and> state (nodes c' a) = Follower \<and>
             votedFor (nodes c' a) = CandidateID args \<and> running c' = running c @ [Grant a args]
        else currentTerm (nodes c' a) = currentTerm (nodes c a) \<and>
             state (nodes c' a) = state (nodes c a) \<and>
             (if currentTerm (nodes c a) = Term args \<and>
                 (votedFor (nodes c a) = - 1 \<or> votedFor (nodes c a) = CandidateID args)
              then votedFor (nodes c' a) = CandidateID args \<and>
                   running c' = running c @ [Grant a args]
              else votedFor (nodes c' a) = votedFor (nodes c a) \<and> running c' = running c)))"
proof -
  from step_HandleRequestVote_eq [OF assms] obtain args rest where
    a: "a < cluster_size c" "panicked c = None" and
    q: "voteReqChan (nodes c a) = args # rest" and
    c': "c' = c\<lparr>nodes := fst (handleRequestVote
                  ((nodes c)(a := (nodes c a)\<lparr>voteReqChan := rest\<rparr>)) a args r),
              running := running c @ snd (snd (handleRequestVote
                  ((nodes c)(a := (nodes c a)\<lparr>voteReqChan := rest\<rparr>)) a args r))\<rparr>"
    by blast
  let ?h = "(nodes c)(a := (nodes c a)\<lparr>voteReqChan := rest\<rparr>)"
  have t: "currentTerm (?h a) = currentTerm (nodes c a)" "votedFor (?h a) = votedFor (nodes c a)"
    by simp_all
  consider (higher) "currentTerm (nodes c a) <s Term args"
    | (lower) "Term args <s currentTerm (nodes c a)"
    | (grant) "currentTerm (nodes c a) = Term args"
        "votedFor (nodes c a) = - 1 \<or> votedFor (nodes c a) = CandidateID args"
    | (deny) "currentTerm (nodes c a) = Term args"
        "\<not> (votedFor (nodes c a) = - 1 \<or> votedFor (nodes c a) = CandidateID args)"
    using signed.less_linear [of "currentTerm (nodes c a)" "Term args"] by blast
  then show ?thesis
  proof cases
    case higher
    then have "currentTerm (?h a) <s Term args" by simp
    with handleRequestVote_higher [where h = ?h and a = a and args = args and r = r]
    show ?thesis
      using a q c' higher by (auto intro!: exI [of _ args])
  next
    case lower
    then have "Term args <s currentTerm (?h a)" by simp
    with handleRequestVote_lower [where h = ?h and a = a and args = args and r = r]
    show ?thesis
      using a q c' lower by (auto intro!: exI [of _ args] dest: sless_asym)
  next
    case grant
    then have "currentTerm (?h a) = Term args"
      "votedFor (?h a) = - 1 \<or> votedFor (?h a) = CandidateID args" by simp_all
    with handleRequestVote_equal_grant [where h = ?h and a = a and args = args and r = r]
    show ?thesis
      using a q c' grant by (auto intro!: exI [of _ args])
  next
    case deny
    then have "currentTerm (?h a) = Term args"
      "\<not> (votedFor (?h a) = - 1 \<or> votedFor (?h a) = CandidateID args)" by simp_all
    with handleRequestVote_equal_deny [where h = ?h and a = a and args = args and r = r]
    show ?thesis
      using a q c' deny by (auto intro!: exI [of _ args])
  qed
qed

lemma step_HandleHeartbeat_eq:
  assumes "step (HandleHeartbeat a r) c = Some c'"
  shows "a < cluster_size c \<and> panicked c = None \<and>
    (\<exists>hb rest. heartbeatChan (nodes c a) = hb # rest \<and>
       c' = c\<lparr>nodes := handleHeartbeat
                  ((nodes c)(a := (nodes c a)\<lparr>heartbeatChan := rest\<rparr>)) a hb r\<rparr>)"
  using assms
  by (auto simp: step_def Let_def split: list.splits if_splits)

lemma handleHeartbeat_fields:
  "node_id (handleHeartbeat h a hb r b) = node_id (h b) \<and>
   peers (handleHeartbeat h a hb r b) = peers (h b) \<and>
   voteReqChan (handleHeartbeat h a hb r b) = voteReqChan (h b) \<and>
   votedFor (handleHeartbeat h a hb r b) = votedFor (h b) \<and>
   (b \<noteq> a \<longrightarrow> currentTerm (handleHeartbeat h a hb r b) = currentTerm (h b) \<and>
      state (handleHeartbeat h a hb r b) = state (h b)) \<and>
   ((currentTerm (handleHeartbeat h a hb r a) = currentTerm (h a) \<and>
     state (handleHeartbeat h a hb r a) = state (h a)) \<or>
    (currentTerm (h a) \<le>s currentTerm (handleHeartbeat h a hb r a) \<and>
     state (handleHeartbeat h a hb r a) = Follower))"
  by (simp add: handleHeartbeat_def)

lemma step_HandleHeartbeat:
  assumes "step (HandleHeartbeat a r) c = Some c'"
  shows "a < cluster_size c \<and> panicked c' = None \<and> cluster_size c' = cluster_size c \<and>
    running c' = running c \<and>
    (\<forall>b. node_id (nodes c' b) = node_id (nodes c b) \<and> peers (nodes c' b) = peers (nodes c b) \<and>
         voteReqChan (nodes c' b) = voteReqChan (nodes c b) \<and>
         votedFor (nodes c' b) = votedFor (nodes c b)) \<and>
    (\<forall>b. b \<noteq> a \<longrightarrow> currentTerm (nodes c' b) = currentTerm (nodes c b) \<and>
         state (nodes c' b) = state (nodes c b)) \<and>
    ((currentTerm (nodes c' a) = currentTerm (nodes c a) \<and> state (nodes c' a) = state (nodes c a)) \<or>
     (currentTerm (nodes c a) \<le>s currentTerm (nodes c' a) \<and> state (nodes c' a) = Follower))"
proof -
  from step_HandleHeartbeat_eq [OF assms] obtain hb rest where
    a: "a < cluster_size c" "panicked c = None" and
    c': "c' = c\<lparr>nodes := handleHeartbeat
                  ((nodes c)(a := (nodes c a)\<lparr>heartbeatChan := rest\<rparr>)) a hb r\<rparr>"
    by blast
  let ?h = "(nodes c)(a := (nodes c a)\<lparr>heartbeatChan := rest\<rparr>)"
  have f: "\<And>b. node_id (?h b) = node_id (nodes c b) \<and> peers (?h b) = peers (nodes c b) \<and>
     voteReqChan (?h b) = voteReqChan (nodes c b) \<and> votedFor (?h b) = votedFor (nodes c b) \<and>
     currentTerm (?h b) = currentTerm (nodes c b) \<and> state (?h b) = state (nodes c b)"
    by simp
  show ?thesis
    using a handleHeartbeat_fields [where h = ?h and a = a and hb = hb and r = r]
    unfolding c' by (simp add: f del: fun_upd_apply)
qed

lemma step_Run_eq:
  assumes "step (Run i) c = Some c'"
  shows "i < length (running c) \<and> panicked c = None \<and>
    (case run_goroutine (nodes c) (running c ! i) of
       None \<Rightarrow> False
     | Some (Inl p) \<Rightarrow> c' = c\<lparr>panicked := Some p\<rparr>
     | Some (Inr (h, gs)) \<Rightarrow> c' = c\<lparr>nodes := h, running := remove_nth i (running c) @ gs\<rparr>)"
  using assms
  by (auto simp: step_def split: option.splits sum.splits if_splits)

lemma step_Run_SendVoteReq:
  assumes "step (Run i) c = Some c'" and "running c ! i = SendVoteReq p args"
  shows "c' = c\<lparr>nodes := (nodes c)(p := (nodes c p)\<lparr>voteReqChan := voteReqChan (nodes c p) @ [args]\<rparr>),
                running := remove_nth i (running c)\<rparr>"
  using step_Run_eq [OF assms(1)] assms(2) by (simp split: if_splits)

lemma step_Run_Grant:
  assumes "step (Run i) c = Some c'" and "running c ! i = Grant v args"
  shows "(getPeer (nodes c) v (CandidateID args) = None \<and>
      c' = c\<lparr>panicked := Some NilPointerDereference\<rparr>) \<or>
    (\<exists>cand. getPeer (nodes c) v (CandidateID args) = Some cand \<and>
       c' = c\<lparr>nodes := fst (receiveVote (nodes c) cand),
              running := remove_nth i (running c) @ snd (receiveVote (nodes c) cand)\<rparr>)"
  using step_Run_eq [OF assms(1)] assms(2)
  by (auto simp: grantVote_def split: option.splits prod.splits)

lemma step_Run_Heartbeats:
  assumes "step (Run i) c = Some c'"
    and "running c ! i = Heartbeats a \<or> running c ! i = HeartbeatsBatch a t ps"
  shows "\<exists>h gs. sendHeartbeats (nodes c) (running c ! i) = Some (h, gs) \<and>
     c' = c\<lparr>nodes := h, running := remove_nth i (running c) @ gs\<rparr>"
  using step_Run_eq [OF assms(1)] assms(2)
  by (auto split: option.splits prod.splits)

subsection \<open>What every step preserves, and where new leaders, grants and requests come from\<close>

lemma receiveVote_fields:
  "node_id (fst (receiveVote h a) b) = node_id (h b) \<and>
   peers (fst (receiveVote h a) b) = peers (h b) \<and>
   currentTerm (fst (receiveVote h a) b) = currentTerm (h b) \<and>
   votedFor (fst (receiveVote h a) b) = votedFor (h b) \<and>
   voteReqChan (fst (receiveVote h a) b) = voteReqChan (h b) \<and>
   (b \<noteq> a \<longrightarrow> state (fst (receiveVote h a) b) = state (h b)) \<and>
   (state (h a) = Candidate \<longrightarrow> state (fst (receiveVote h a) a) = Leader) \<and>
   (state (h a) \<noteq> Candidate \<longrightarrow> state (fst (receiveVote h a) a) = state (h a)) \<and>
   (\<forall>x \<in> set (snd (receiveVote h a)). x = Heartbeats a)"
  by (simp add: receiveVote_def)

lemma step_static:
  assumes "step e c = Some c'"
  shows "cluster_size c' = cluster_size c \<and>
     node_id (nodes c' b) = node_id (nodes c b) \<and> peers (nodes c' b) = peers (nodes c b)"
proof (cases e)
  case (Timeout a)
  then show ?thesis using step_Timeout [of a c c'] assms by simp
next
  case (HandleRequestVote a r)
  then show ?thesis using step_HandleRequestVote [of a r c c'] assms by simp
next
  case (HandleHeartbeat a r)
  then show ?thesis using step_HandleHeartbeat [of a r c c'] assms by simp
next
  case (Run i)
  with assms have s: "step (Run i) c = Some c'" by simp
  show ?thesis
  proof (cases "running c ! i")
    case (SendVoteReq p args)
    from step_Run_SendVoteReq [OF s this] show ?thesis by simp
  next
    case (Grant v args)
    from step_Run_Grant [OF s this] show ?thesis
      by (auto simp: receiveVote_fields)
  next
    case (Heartbeats a)
    with step_Run_Heartbeats [OF s, of a] obtain h gs where
      "sendHeartbeats (nodes c) (running c ! i) = Some (h, gs)"
      "c' = c\<lparr>nodes := h, running := remove_nth i (running c) @ gs\<rparr>" by auto
    then show ?thesis using sendHeartbeats_core [of "nodes c" "running c ! i" h gs b] by simp
  next
    case (HeartbeatsBatch a t ps)
    with step_Run_Heartbeats [OF s, of a t ps] obtain h gs where
      "sendHeartbeats (nodes c) (running c ! i) = Some (h, gs)"
      "c' = c\<lparr>nodes := h, running := remove_nth i (running c) @ gs\<rparr>" by auto
    then show ?thesis using sendHeartbeats_core [of "nodes c" "running c ! i" h gs b] by simp
  qed
qed

lemma step_advances:
  assumes "step e c = Some c'" and "regular e c"
  shows "advances (nodes c) (nodes c') v"
proof (cases e)
  case (Timeout a)
  with assms have "currentTerm (nodes c a) <s currentTerm (nodes c a) + 1"
    by (simp add: sless_succ)
  then show ?thesis using step_Timeout [of a c c'] assms(1) Timeout
    by (cases "v = a") (auto simp: advances_def split: if_splits)
next
  case (HandleRequestVote a r)
  then show ?thesis using step_HandleRequestVote [of a r c c'] assms(1)
    by (cases "v = a") (auto simp: advances_def split: if_splits)
next
  case (HandleHeartbeat a r)
  then show ?thesis using step_HandleHeartbeat [of a r c c'] assms(1)
    by (cases "v = a") (auto simp: advances_def sle_sless)
next
  case (Run i)
  with assms have s: "step (Run i) c = Some c'" by simp
  show ?thesis
  proof (cases "running c ! i")
    case (SendVoteReq p args)
    from step_Run_SendVoteReq [OF s this] show ?thesis by (simp add: advances_def)
  next
    case (Grant u args)
    from step_Run_Grant [OF s this] show ?thesis
      by (auto simp: advances_def receiveVote_fields)
  next
    case (Heartbeats a)
    with step_Run_Heartbeats [OF s, of a] obtain h gs where
      "sendHeartbeats (nodes c) (running c ! i) = Some (h, gs)"
      "c' = c\<lparr>nodes := h, running := remove_nth i (running c) @ gs\<rparr>" by auto
    then show ?thesis using sendHeartbeats_core [of "nodes c" "running c ! i" h gs v]
      by (simp add: advances_def)
  next
    case (HeartbeatsBatch a t ps)
    with step_Run_Heartbeats [OF s, of a t ps] obtain h gs where
      "sendHeartbeats (nodes c) (running c ! i) = Some (h, gs)"
      "c' = c\<lparr>nodes := h, running := remove_nth i (running c) @ gs\<rparr>" by auto
    then show ?thesis using sendHeartbeats_core [of "nodes c" "running c ! i" h gs v]
      by (simp add: advances_def)
  qed
qed

lemma voted_advances:
  "voted h v cid t \<Longrightarrow> advances h h' v \<Longrightarrow> cid \<noteq> - 1 \<Longrightarrow> voted h' v cid t"
  by (auto simp: voted_def advances_def dest: sless_trans)

lemma step_leader:
  assumes "step e c = Some c'" and "state (nodes c' b) = Leader"
  shows "(state (nodes c b) = Leader \<and> currentTerm (nodes c' b) = currentTerm (nodes c b)) \<or>
     (\<exists>i v args. e = Run i \<and> running c ! i = Grant v args \<and>
        getPeer (nodes c) v (CandidateID args) = Some b \<and> state (nodes c b) = Candidate \<and>
        currentTerm (nodes c' b) = currentTerm (nodes c b))"
proof (cases e)
  case (Timeout a)
  then show ?thesis using step_Timeout [of a c c'] assms
    by (cases "b = a") (auto split: if_splits)
next
  case (HandleRequestVote a r)
  then show ?thesis using step_HandleRequestVote [of a r c c'] assms
    by (cases "b = a") (auto split: if_splits)
next
  case (HandleHeartbeat a r)
  then show ?thesis using step_HandleHeartbeat [of a r c c'] assms
    by (cases "b = a") auto
next
  case (Run i)
  with assms have s: "step (Run i) c = Some c'" by simp
  show ?thesis
  proof (cases "running c ! i")
    case (SendVoteReq p args)
    from step_Run_SendVoteReq [OF s this] assms(2) show ?thesis by (simp split: if_splits)
  next
    case (Grant v args)
    from step_Run_Grant [OF s this] consider
      "c' = c\<lparr>panicked := Some NilPointerDereference\<rparr>"
      | cand where "getPeer (nodes c) v (CandidateID args) = Some cand"
          "c' = c\<lparr>nodes := fst (receiveVote (nodes c) cand),
                 running := remove_nth i (running c) @ snd (receiveVote (nodes c) cand)\<rparr>"
      by blast
    then show ?thesis
    proof cases
      case 1
      then show ?thesis using assms(2) by simp
    next
      case 2
      show ?thesis
      proof (cases "b = cand \<and> state (nodes c cand) = Candidate")
        case True
        then show ?thesis using 2 Run Grant by (simp add: receiveVote_fields)
      next
        case False
        then have "state (nodes c' b) = state (nodes c b)"
          using 2 receiveVote_fields [of "nodes c" cand b] by (cases "b = cand") auto
        then show ?thesis using assms(2) 2 by (simp add: receiveVote_fields)
      qed
    qed
  next
    case (Heartbeats a)
    with step_Run_Heartbeats [OF s, of a] obtain h gs where
      "sendHeartbeats (nodes c) (running c ! i) = Some (h, gs)"
      "c' = c\<lparr>nodes := h, running := remove_nth i (running c) @ gs\<rparr>" by auto
    then show ?thesis using sendHeartbeats_core [of "nodes c" "running c ! i" h gs b] assms(2)
      by simp
  next
    case (HeartbeatsBatch a t ps)
    with step_Run_Heartbeats [OF s, of a t ps] obtain h gs where
      "sendHeartbeats (nodes c) (running c ! i) = Some (h, gs)"
      "c' = c\<lparr>nodes := h, running := remove_nth i (running c) @ gs\<rparr>" by auto
    then show ?thesis using sendHeartbeats_core [of "nodes c" "running c ! i" h gs b] assms(2)
      by simp
  qed
qed

lemma receiveVote_no_grant: "Grant v args \<notin> set (snd (receiveVote h a))"
  by (simp add: receiveVote_def)

lemma sendHeartbeats_no_grant:
  "sendHeartbeats h g = Some (h', gs) \<Longrightarrow> Grant v args \<notin> set gs"
  using sendHeartbeats_spawn [of h g h' gs "Grant v args"] by auto

lemma step_grant:
  assumes "step e c = Some c'" and "Grant v args \<in> set (running c')"
  shows "Grant v args \<in> set (running c) \<or>
     (\<exists>r. e = HandleRequestVote v r \<and> v < cluster_size c \<and>
        args \<in> set (voteReqChan (nodes c v)) \<and>
        currentTerm (nodes c' v) = Term args \<and> votedFor (nodes c' v) = CandidateID args \<and>
        \<not> Term args <s currentTerm (nodes c v) \<and>
        (currentTerm (nodes c v) = Term args \<longrightarrow>
           votedFor (nodes c v) = - 1 \<or> votedFor (nodes c v) = CandidateID args))"
proof (cases e)
  case (Timeout a)
  then show ?thesis using step_Timeout [of a c c'] assms
    by (auto split: if_splits)
next
  case (HandleRequestVote a r)
  with assms have s: "step (HandleRequestVote a r) c = Some c'" by simp
  from step_HandleRequestVote [OF s] obtain args0 where
    a: "a < cluster_size c" and
    q: "voteReqChan (nodes c a) = args0 # voteReqChan (nodes c' a)" and
    hi: "currentTerm (nodes c a) <s Term args0 \<Longrightarrow>
         currentTerm (nodes c' a) = Term args0 \<and> votedFor (nodes c' a) = CandidateID args0 \<and>
         running c' = running c @ [Grant a args0]" and
    eq: "\<not> currentTerm (nodes c a) <s Term args0 \<Longrightarrow>
         currentTerm (nodes c a) = Term args0 \<and>
           (votedFor (nodes c a) = - 1 \<or> votedFor (nodes c a) = CandidateID args0) \<Longrightarrow>
         currentTerm (nodes c' a) = Term args0 \<and> votedFor (nodes c' a) = CandidateID args0 \<and>
         running c' = running c @ [Grant a args0]" and
    no: "\<not> currentTerm (nodes c a) <s Term args0 \<Longrightarrow>
         \<not> (currentTerm (nodes c a) = Term args0 \<and>
           (votedFor (nodes c a) = - 1 \<or> votedFor (nodes c a) = CandidateID args0)) \<Longrightarrow>
         running c' = running c"
    by (auto split: if_splits)
  show ?thesis
  proof (cases "Grant v args \<in> set (running c)")
    case True
    then show ?thesis by simp
  next
    case False
    have in0: "args0 \<in> set (voteReqChan (nodes c a))" using q by simp
    show ?thesis
    proof (cases "currentTerm (nodes c a) <s Term args0")
      case True
      from hi [OF True] assms(2) False have "v = a" "args = args0" by auto
      then show ?thesis
        using hi [OF True] True HandleRequestVote a in0 by (auto dest: sless_asym)
    next
      case nh: False
      show ?thesis
      proof (cases "currentTerm (nodes c a) = Term args0 \<and>
           (votedFor (nodes c a) = - 1 \<or> votedFor (nodes c a) = CandidateID args0)")
        case True
        from eq [OF nh True] assms(2) False have "v = a" "args = args0" by auto
        then show ?thesis
          using eq [OF nh True] True HandleRequestVote a in0 by auto
      next
        case False
        from no [OF nh False] assms(2) \<open>Grant v args \<notin> set (running c)\<close>
        show ?thesis by simp
      qed
    qed
  qed
next
  case (HandleHeartbeat a r)
  then show ?thesis using step_HandleHeartbeat [of a r c c'] assms by auto
next
  case (Run i)
  with assms have s: "step (Run i) c = Some c'" by simp
  have "Grant v args \<in> set (running c)"
  proof (cases "running c ! i")
    case (SendVoteReq p args')
    from step_Run_SendVoteReq [OF s this] assms(2) show ?thesis
      by (auto dest: in_remove_nth)
  next
    case (Grant u args')
    from step_Run_Grant [OF s this] assms(2) show ?thesis
      using receiveVote_no_grant [of v args "nodes c"]
      by (auto dest: in_remove_nth)
  next
    case (Heartbeats a)
    with step_Run_Heartbeats [OF s, of a] obtain h gs where
      "sendHeartbeats (nodes c) (running c ! i) = Some (h, gs)"
      "c' = c\<lparr>nodes := h, running := remove_nth i (running c) @ gs\<rparr>" by auto
    then show ?thesis using sendHeartbeats_no_grant [of "nodes c" "running c ! i" h gs v args]
        assms(2)
      by (auto dest: in_remove_nth)
  next
    case (HeartbeatsBatch a t ps)
    with step_Run_Heartbeats [OF s, of a t ps] obtain h gs where
      "sendHeartbeats (nodes c) (running c ! i) = Some (h, gs)"
      "c' = c\<lparr>nodes := h, running := remove_nth i (running c) @ gs\<rparr>" by auto
    then show ?thesis using sendHeartbeats_no_grant [of "nodes c" "running c ! i" h gs v args]
        assms(2)
      by (auto dest: in_remove_nth)
  qed
  then show ?thesis by simp
qed

lemma sendHeartbeats_no_send:
  "sendHeartbeats h g = Some (h', gs) \<Longrightarrow> SendVoteReq p args \<notin> set gs"
  using sendHeartbeats_spawn [of h g h' gs "SendVoteReq p args"] by auto

lemma receiveVote_no_send: "SendVoteReq p args \<notin> set (snd (receiveVote h a))"
  by (simp add: receiveVote_def)

lemma step_Timeout_running:
  assumes "step (Timeout a) c = Some c'"
  shows "running c' = running c @
     (if state (nodes c a) = Leader then []
      else map (\<lambda>p. SendVoteReq p \<lparr>Term = currentTerm (nodes c a) + 1,
                                     CandidateID = node_id (nodes c a)\<rparr>)
             (filter (\<lambda>p. node_id (nodes c p) \<noteq> node_id (nodes c a)) (peers (nodes c a))))"
  using step_Timeout [OF assms] by simp

lemma step_HandleRequestVote_cases [consumes 1, case_names higher grant deny]:
  assumes "step (HandleRequestVote a r) c = Some c'"
  obtains
    (higher) args where "voteReqChan (nodes c a) = args # voteReqChan (nodes c' a)"
      "currentTerm (nodes c a) <s Term args"
      "currentTerm (nodes c' a) = Term args" "state (nodes c' a) = Follower"
      "votedFor (nodes c' a) = CandidateID args" "running c' = running c @ [Grant a args]"
  | (grant) args where "voteReqChan (nodes c a) = args # voteReqChan (nodes c' a)"
      "currentTerm (nodes c a) = Term args"
      "votedFor (nodes c a) = - 1 \<or> votedFor (nodes c a) = CandidateID args"
      "currentTerm (nodes c' a) = Term args" "state (nodes c' a) = state (nodes c a)"
      "votedFor (nodes c' a) = CandidateID args" "running c' = running c @ [Grant a args]"
  | (deny) args where "voteReqChan (nodes c a) = args # voteReqChan (nodes c' a)"
      "currentTerm (nodes c' a) = currentTerm (nodes c a)"
      "state (nodes c' a) = state (nodes c a)"
      "votedFor (nodes c' a) = votedFor (nodes c a)" "running c' = running c"
proof -
  from step_HandleRequestVote [OF assms] obtain args where
    q: "voteReqChan (nodes c a) = args # voteReqChan (nodes c' a)" and
    e: "if currentTerm (nodes c a) <s Term args
        then currentTerm (nodes c' a) = Term args \<and> state (nodes c' a) = Follower \<and>
             votedFor (nodes c' a) = CandidateID args \<and> running c' = running c @ [Grant a args]
        else currentTerm (nodes c' a) = currentTerm (nodes c a) \<and>
             state (nodes c' a) = state (nodes c a) \<and>
             (if currentTerm (nodes c a) = Term args \<and>
                 (votedFor (nodes c a) = - 1 \<or> votedFor (nodes c a) = CandidateID args)
              then votedFor (nodes c' a) = CandidateID args \<and>
                   running c' = running c @ [Grant a args]
              else votedFor (nodes c' a) = votedFor (nodes c a) \<and> running c' = running c)"
    by blast
  show thesis
  proof (cases "currentTerm (nodes c a) <s Term args")
    case True
    with e have "currentTerm (nodes c' a) = Term args" "state (nodes c' a) = Follower"
      "votedFor (nodes c' a) = CandidateID args" "running c' = running c @ [Grant a args]"
      by simp_all
    with q True show thesis by (rule higher)
  next
    case nh: False
    show thesis
    proof (cases "currentTerm (nodes c a) = Term args \<and>
                 (votedFor (nodes c a) = - 1 \<or> votedFor (nodes c a) = CandidateID args)")
      case True
      with e nh have "currentTerm (nodes c' a) = Term args"
        "state (nodes c' a) = state (nodes c a)"
        "votedFor (nodes c' a) = CandidateID args" "running c' = running c @ [Grant a args]"
        by simp_all
      with q True show thesis using grant [of args] by blast
    next
      case False
      with e nh have "currentTerm (nodes c' a) = currentTerm (nodes c a)"
        "state (nodes c' a) = state (nodes c a)"
        "votedFor (nodes c' a) = votedFor (nodes c a)" "running c' = running c"
        by simp_all
      with q show thesis by (rule deny)
    qed
  qed
qed

lemma step_HandleRequestVote_running:
  assumes "step (HandleRequestVote a r) c = Some c'"
  shows "running c' = running c \<or> (\<exists>args. running c' = running c @ [Grant a args])"
  using assms by (cases rule: step_HandleRequestVote_cases) blast+

lemma step_send:
  assumes "step e c = Some c'" and "SendVoteReq p args \<in> set (running c')"
  shows "SendVoteReq p args \<in> set (running c) \<or>
     (\<exists>a. e = Timeout a \<and> a < cluster_size c \<and>
        node_id (nodes c p) \<noteq> node_id (nodes c a) \<and> CandidateID args = node_id (nodes c a))"
proof (cases e)
  case (Timeout a)
  with assms have s: "step (Timeout a) c = Some c'" by simp
  have a: "a < cluster_size c" using step_enabled [OF s] by simp
  from assms(2) step_Timeout_running [OF s] show ?thesis
    using Timeout a by (auto split: if_splits)
next
  case (HandleRequestVote a r)
  with assms have s: "step (HandleRequestVote a r) c = Some c'" by simp
  from step_HandleRequestVote_running [OF s] assms(2) show ?thesis by auto
next
  case (HandleHeartbeat a r)
  with assms have s: "step (HandleHeartbeat a r) c = Some c'" by simp
  from step_HandleHeartbeat [OF s] have "running c' = running c" by simp
  with assms(2) show ?thesis by simp
next
  case (Run i)
  with assms have s: "step (Run i) c = Some c'" by simp
  have "SendVoteReq p args \<in> set (running c)"
  proof (cases "running c ! i")
    case (SendVoteReq p' args')
    from step_Run_SendVoteReq [OF s this] assms(2) show ?thesis
      by (auto dest: in_remove_nth)
  next
    case (Grant u args')
    from step_Run_Grant [OF s this] assms(2) show ?thesis
      using receiveVote_no_send [of p args "nodes c"]
      by (auto dest: in_remove_nth)
  next
    case (Heartbeats a)
    with step_Run_Heartbeats [OF s, of a] obtain h gs where
      "sendHeartbeats (nodes c) (running c ! i) = Some (h, gs)"
      "c' = c\<lparr>nodes := h, running := remove_nth i (running c) @ gs\<rparr>" by auto
    then show ?thesis using sendHeartbeats_no_send [of "nodes c" "running c ! i" h gs p args]
        assms(2)
      by (auto dest: in_remove_nth)
  next
    case (HeartbeatsBatch a t ps)
    with step_Run_Heartbeats [OF s, of a t ps] obtain h gs where
      "sendHeartbeats (nodes c) (running c ! i) = Some (h, gs)"
      "c' = c\<lparr>nodes := h, running := remove_nth i (running c) @ gs\<rparr>" by auto
    then show ?thesis using sendHeartbeats_no_send [of "nodes c" "running c ! i" h gs p args]
        assms(2)
      by (auto dest: in_remove_nth)
  qed
  then show ?thesis by simp
qed

lemma step_HandleRequestVote_other:
  assumes "step (HandleRequestVote a r) c = Some c'" and "b \<noteq> a"
  shows "currentTerm (nodes c' b) = currentTerm (nodes c b) \<and>
         votedFor (nodes c' b) = votedFor (nodes c b) \<and> state (nodes c' b) = state (nodes c b) \<and>
         voteReqChan (nodes c' b) = voteReqChan (nodes c b)"
  using step_HandleRequestVote [OF assms(1)] assms(2) by blast

lemma step_chan:
  assumes "step e c = Some c'" and "args \<in> set (voteReqChan (nodes c' a))"
  shows "args \<in> set (voteReqChan (nodes c a)) \<or> SendVoteReq a args \<in> set (running c)"
proof (cases e)
  case (Timeout b)
  then show ?thesis using step_Timeout [of b c c'] assms by simp
next
  case (HandleRequestVote b r)
  with assms have s: "step (HandleRequestVote b r) c = Some c'" by simp
  show ?thesis
  proof (cases "a = b")
    case True
    from s have "set (voteReqChan (nodes c' b)) \<subseteq> set (voteReqChan (nodes c b))"
      by (cases rule: step_HandleRequestVote_cases) auto
    then show ?thesis using assms(2) True by auto
  next
    case False
    then show ?thesis using step_HandleRequestVote_other [OF s, of a] assms(2) by simp
  qed
next
  case (HandleHeartbeat b r)
  then show ?thesis using step_HandleHeartbeat [of b r c c'] assms by simp
next
  case (Run i)
  with assms have s: "step (Run i) c = Some c'" by simp
  have i: "i < length (running c)" using step_enabled [OF s] by simp
  show ?thesis
  proof (cases "running c ! i")
    case (SendVoteReq p args')
    from step_Run_SendVoteReq [OF s this] assms(2) have
      "args \<in> set (voteReqChan (nodes c a)) \<or> (a = p \<and> args = args')"
      by (auto split: if_splits)
    moreover have "SendVoteReq p args' \<in> set (running c)"
      using SendVoteReq i nth_mem by metis
    ultimately show ?thesis by auto
  next
    case (Grant u args')
    from step_Run_Grant [OF s this] assms(2) show ?thesis
      by (auto simp: receiveVote_fields)
  next
    case (Heartbeats b)
    with step_Run_Heartbeats [OF s, of b] obtain h gs where
      "sendHeartbeats (nodes c) (running c ! i) = Some (h, gs)"
      "c' = c\<lparr>nodes := h, running := remove_nth i (running c) @ gs\<rparr>" by auto
    then show ?thesis using sendHeartbeats_core [of "nodes c" "running c ! i" h gs a] assms(2)
      by simp
  next
    case (HeartbeatsBatch b t ps)
    with step_Run_Heartbeats [OF s, of b t ps] obtain h gs where
      "sendHeartbeats (nodes c) (running c ! i) = Some (h, gs)"
      "c' = c\<lparr>nodes := h, running := remove_nth i (running c) @ gs\<rparr>" by auto
    then show ?thesis using sendHeartbeats_core [of "nodes c" "running c ! i" h gs a] assms(2)
      by simp
  qed
qed

lemma step_vote:
  assumes "step e c = Some c'" and "state (nodes c' b) \<noteq> Follower"
  shows "votedFor (nodes c' b) = node_id (nodes c b) \<or>
     (state (nodes c b) \<noteq> Follower \<and> votedFor (nodes c' b) = votedFor (nodes c b)) \<or>
     (\<exists>args. args \<in> set (voteReqChan (nodes c b)) \<and> state (nodes c b) \<noteq> Follower \<and>
        votedFor (nodes c' b) = CandidateID args \<and>
        (votedFor (nodes c b) = - 1 \<or> votedFor (nodes c b) = CandidateID args))"
proof (cases e)
  case (Timeout a)
  with assms have s: "step (Timeout a) c = Some c'" by simp
  show ?thesis
  proof (cases "b = a")
    case False
    then show ?thesis using step_Timeout [OF s] assms(2) by simp
  next
    case True
    then show ?thesis using step_Timeout [OF s] assms(2)
      by (cases "state (nodes c a) = Leader") simp_all
  qed
next
  case (HandleRequestVote a r)
  with assms have s: "step (HandleRequestVote a r) c = Some c'" by simp
  show ?thesis
  proof (cases "b = a")
    case False
    then show ?thesis using step_HandleRequestVote_other [OF s, of b] assms(2) by simp
  next
    case True
    from s show ?thesis
    proof (cases rule: step_HandleRequestVote_cases)
      case (higher args)
      then show ?thesis using assms(2) True by simp
    next
      case (grant args)
      then have "args \<in> set (voteReqChan (nodes c b))" using True by simp
      then show ?thesis using grant assms(2) True by auto
    next
      case (deny args)
      then show ?thesis using assms(2) True by simp
    qed
  qed
next
  case (HandleHeartbeat a r)
  with assms have s: "step (HandleHeartbeat a r) c = Some c'" by simp
  show ?thesis
  proof (cases "b = a")
    case False
    then show ?thesis using step_HandleHeartbeat [OF s] assms(2) by simp
  next
    case True
    from step_HandleHeartbeat [OF s] have
      "votedFor (nodes c' a) = votedFor (nodes c a)"
      "state (nodes c' a) = state (nodes c a) \<or> state (nodes c' a) = Follower"
      by blast+
    then show ?thesis using assms(2) True by auto
  qed
next
  case (Run i)
  with assms have s: "step (Run i) c = Some c'" by simp
  show ?thesis
  proof (cases "running c ! i")
    case (SendVoteReq p args)
    from step_Run_SendVoteReq [OF s this] assms(2) show ?thesis by (simp split: if_splits)
  next
    case (Grant v args)
    from step_Run_Grant [OF s this] consider
      "c' = c\<lparr>panicked := Some NilPointerDereference\<rparr>"
      | cand where "c' = c\<lparr>nodes := fst (receiveVote (nodes c) cand),
              running := remove_nth i (running c) @ snd (receiveVote (nodes c) cand)\<rparr>"
      by blast
    then show ?thesis
    proof cases
      case 1
      then show ?thesis using assms(2) by simp
    next
      case 2
      have v: "votedFor (nodes c' b) = votedFor (nodes c b)"
        using 2 by (simp add: receiveVote_fields)
      have "state (nodes c b) \<noteq> Follower"
      proof (cases "b = cand")
        case False
        then show ?thesis using 2 assms(2) by (simp add: receiveVote_fields)
      next
        case True
        then show ?thesis using 2 assms(2) receiveVote_fields [of "nodes c" cand cand]
          by (cases "state (nodes c cand) = Candidate") auto
      qed
      with v show ?thesis by simp
    qed
  next
    case (Heartbeats a)
    with step_Run_Heartbeats [OF s, of a] obtain h gs where
      "sendHeartbeats (nodes c) (running c ! i) = Some (h, gs)"
      "c' = c\<lparr>nodes := h, running := remove_nth i (running c) @ gs\<rparr>" by auto
    then show ?thesis using sendHeartbeats_core [of "nodes c" "running c ! i" h gs b] assms(2)
      by simp
  next
    case (HeartbeatsBatch a t ps)
    with step_Run_Heartbeats [OF s, of a t ps] obtain h gs where
      "sendHeartbeats (nodes c) (running c ! i) = Some (h, gs)"
      "c' = c\<lparr>nodes := h, running := remove_nth i (running c) @ gs\<rparr>" by auto
    then show ?thesis using sendHeartbeats_core [of "nodes c" "running c ! i" h gs b] assms(2)
      by simp
  qed
qed

lemma step_panicked:
  assumes "step e c = Some c'"
  shows "panicked c' = None \<or>
     (\<exists>i v args. e = Run i \<and> running c ! i = Grant v args \<and>
        getPeer (nodes c) v (CandidateID args) = None)"
proof (cases e)
  case (Timeout a)
  then show ?thesis using step_Timeout [of a c c'] assms by simp
next
  case (HandleRequestVote a r)
  then show ?thesis using step_HandleRequestVote [of a r c c'] assms by simp
next
  case (HandleHeartbeat a r)
  then show ?thesis using step_HandleHeartbeat [of a r c c'] assms by simp
next
  case (Run i)
  with assms have s: "step (Run i) c = Some c'" by simp
  have p: "panicked c = None" using step_enabled [OF s] by simp
  show ?thesis
  proof (cases "running c ! i")
    case (SendVoteReq p args)
    from step_Run_SendVoteReq [OF s this] p show ?thesis by simp
  next
    case (Grant v args)
    from step_Run_Grant [OF s this] p Run Grant show ?thesis by auto
  next
    case (Heartbeats a)
    with step_Run_Heartbeats [OF s, of a] p show ?thesis by auto
  next
    case (HeartbeatsBatch a t ps)
    with step_Run_Heartbeats [OF s, of a t ps] p show ?thesis by auto
  qed
qed

subsection \<open>The invariant is preserved\<close>

lemma candidate_ok_step:
  assumes "step e c = Some c'"
  shows "candidate_ok c' p args = candidate_ok c p args"
  using step_static [OF assms] by (simp add: candidate_ok_def)

lemma candidate_not_null:
  "wf_cluster c \<Longrightarrow> candidate_ok c p args \<Longrightarrow> CandidateID args \<noteq> - 1"
  by (auto simp: wf_cluster_def candidate_ok_def)

lemma getPeer_wf:
  assumes "wf_cluster c" and "v < cluster_size c" and "cand < cluster_size c"
    and "node_id (nodes c cand) = i"
  shows "getPeer (nodes c) v i = Some cand"
proof -
  have p: "peers (nodes c v) = [0..<cluster_size c]" using assms(1,2) by (simp add: wf_cluster_def)
  then have "cand \<in> set (peers (nodes c v))" using assms(3) by simp
  with assms(4) have "getPeer (nodes c) v i \<noteq> None" by (auto simp: getPeer_None)
  then obtain x where x: "getPeer (nodes c) v i = Some x" by auto
  from getPeer_Some [OF this] p have "x < cluster_size c" "node_id (nodes c x) = i" by auto
  with assms(1,3,4) have "x = cand" by (simp add: wf_cluster_def)
  with x show ?thesis by simp
qed

lemma inv_wf:
  assumes "wf_cluster c" and "grants_ok c" and "step e c = Some c'"
  shows "wf_cluster c'"
proof -
  have "panicked c' = None"
  proof (rule ccontr)
    assume "panicked c' \<noteq> None"
    with step_panicked [OF assms(3)] obtain i v args where
      e: "e = Run i" and g: "running c ! i = Grant v args" and
      n: "getPeer (nodes c) v (CandidateID args) = None" by auto
    from assms(3) e have "i < length (running c)" using step_enabled by fastforce
    with g have "Grant v args \<in> set (running c)" using nth_mem by metis
    with assms(2) have "v < cluster_size c" "candidate_ok c v args" by (auto simp: grants_ok_def)
    then obtain cand where "cand < cluster_size c" "node_id (nodes c cand) = CandidateID args"
      by (auto simp: candidate_ok_def)
    from getPeer_wf [OF assms(1) \<open>v < cluster_size c\<close> this] n show False by simp
  qed
  then show ?thesis using assms(1) step_static [OF assms(3)] by (simp add: wf_cluster_def)
qed

lemma inv_requests:
  assumes "requests_ok c" and "step e c = Some c'"
  shows "requests_ok c'"
proof -
  have 1: "candidate_ok c' p args" if "SendVoteReq p args \<in> set (running c')" for p args
  proof -
    from step_send [OF assms(2) that] consider "SendVoteReq p args \<in> set (running c)"
      | a where "a < cluster_size c" "node_id (nodes c p) \<noteq> node_id (nodes c a)"
          "CandidateID args = node_id (nodes c a)" by blast
    then have "candidate_ok c p args"
    proof cases
      case 1
      then show ?thesis using assms(1) by (simp add: requests_ok_def)
    next
      case 2
      then have "a \<noteq> p" by auto
      with 2 show ?thesis by (auto simp: candidate_ok_def)
    qed
    then show ?thesis by (simp add: candidate_ok_step [OF assms(2)])
  qed
  have 2: "candidate_ok c' a args"
    if "a < cluster_size c'" "args \<in> set (voteReqChan (nodes c' a))" for a args
  proof -
    have "a < cluster_size c" using that(1) step_static [OF assms(2)] by simp
    with step_chan [OF assms(2) that(2)] assms(1) have "candidate_ok c a args"
      by (auto simp: requests_ok_def)
    then show ?thesis by (simp add: candidate_ok_step [OF assms(2)])
  qed
  from 1 2 show ?thesis by (simp add: requests_ok_def)
qed

lemma inv_self_voted:
  assumes "self_voted c" and "wf_cluster c" and "requests_ok c" and "step e c = Some c'"
  shows "self_voted c'"
proof -
  have "votedFor (nodes c' b) = node_id (nodes c' b)"
    if b: "b < cluster_size c'" and nf: "state (nodes c' b) \<noteq> Follower" for b
  proof -
    have b': "b < cluster_size c" and id: "node_id (nodes c' b) = node_id (nodes c b)"
      using b step_static [OF assms(4)] by simp_all
    from step_vote [OF assms(4) nf] consider
      "votedFor (nodes c' b) = node_id (nodes c b)"
      | "state (nodes c b) \<noteq> Follower" "votedFor (nodes c' b) = votedFor (nodes c b)"
      | args where "args \<in> set (voteReqChan (nodes c b))" "state (nodes c b) \<noteq> Follower"
          "votedFor (nodes c' b) = CandidateID args"
          "votedFor (nodes c b) = - 1 \<or> votedFor (nodes c b) = CandidateID args"
      by blast
    then show ?thesis
    proof cases
      case 1
      then show ?thesis using id by simp
    next
      case 2
      then show ?thesis using assms(1) b' id by (simp add: self_voted_def)
    next
      case 3
      from 3(2) assms(1) b' have v: "votedFor (nodes c b) = node_id (nodes c b)"
        by (simp add: self_voted_def)
      from assms(2) b' have "node_id (nodes c b) \<noteq> - 1" by (simp add: wf_cluster_def)
      with v 3(4) have "votedFor (nodes c b) = CandidateID args" by simp
      with 3(3) v id show ?thesis by simp
    qed
  qed
  then show ?thesis by (simp add: self_voted_def)
qed

lemma inv_grants_ok:
  assumes "grants_ok c" and "wf_cluster c" and "requests_ok c"
    and "step e c = Some c'" and "regular e c"
  shows "grants_ok c'"
proof -
  have "v < cluster_size c' \<and> candidate_ok c' v args \<and>
        voted (nodes c') v (CandidateID args) (Term args)"
    if g: "Grant v args \<in> set (running c')" for v args
  proof -
    from step_grant [OF assms(4) g] consider (old) "Grant v args \<in> set (running c)"
      | (new) "v < cluster_size c" "args \<in> set (voteReqChan (nodes c v))"
          "currentTerm (nodes c' v) = Term args" "votedFor (nodes c' v) = CandidateID args"
      by blast
    then have "v < cluster_size c \<and> candidate_ok c v args \<and>
        voted (nodes c') v (CandidateID args) (Term args)"
    proof cases
      case old
      with assms(1) have o: "v < cluster_size c" "candidate_ok c v args"
        "voted (nodes c) v (CandidateID args) (Term args)" by (auto simp: grants_ok_def)
      from voted_advances [OF o(3) step_advances [OF assms(4,5)]
          candidate_not_null [OF assms(2) o(2)]] o(1,2)
      show ?thesis by simp
    next
      case new
      then show ?thesis using assms(3) by (simp add: requests_ok_def voted_def)
    qed
    then show ?thesis using step_static [OF assms(4)] candidate_ok_step [OF assms(4)] by simp
  qed
  then show ?thesis by (simp add: grants_ok_def)
qed

lemma inv_grants_agree:
  assumes "grants_agree c" and "grants_ok c" and "wf_cluster c"
    and "step e c = Some c'"
  shows "grants_agree c'"
proof -
  have new_old: "CandidateID args = CandidateID args'"
    if n: "Grant v args \<notin> set (running c)" "Grant v args \<in> set (running c')"
      and o: "Grant v args' \<in> set (running c)" and t: "Term args = Term args'"
    for v args args'
  proof -
    from step_grant [OF assms(4) n(2)] n(1) have
      1: "\<not> Term args <s currentTerm (nodes c v)" and
      2: "currentTerm (nodes c v) = Term args \<longrightarrow>
           votedFor (nodes c v) = - 1 \<or> votedFor (nodes c v) = CandidateID args"
      by blast+
    from assms(2) o have ok: "candidate_ok c v args'"
      and v: "voted (nodes c) v (CandidateID args') (Term args')"
      by (auto simp: grants_ok_def)
    from v 1 t have "currentTerm (nodes c v) = Term args"
      "votedFor (nodes c v) = CandidateID args'" by (auto simp: voted_def)
    with 2 candidate_not_null [OF assms(3) ok] show ?thesis by auto
  qed
  have "CandidateID args = CandidateID args'"
    if g: "Grant v args \<in> set (running c')" "Grant v args' \<in> set (running c')"
      and t: "Term args = Term args'" for v args args'
  proof (cases "Grant v args \<in> set (running c)")
    case True
    show ?thesis
    proof (cases "Grant v args' \<in> set (running c)")
      case True
      with \<open>Grant v args \<in> set (running c)\<close> assms(1) t show ?thesis
        unfolding grants_agree_def by blast
    next
      case False
      from new_old [OF False g(2) True] t show ?thesis by simp
    qed
  next
    case False
    show ?thesis
    proof (cases "Grant v args' \<in> set (running c)")
      case True
      from new_old [OF False g(1) True t] show ?thesis .
    next
      case f: False
      from step_grant [OF assms(4) g(1)] False
      have "votedFor (nodes c' v) = CandidateID args" by blast
      moreover from step_grant [OF assms(4) g(2)] f
      have "votedFor (nodes c' v) = CandidateID args'" by blast
      ultimately show ?thesis by simp
    qed
  qed
  then show ?thesis unfolding grants_agree_def by blast
qed

lemma step_Run_Grant_fields:
  assumes "step (Run i) c = Some c'" and "running c ! i = Grant v args"
  shows "currentTerm (nodes c' b) = currentTerm (nodes c b) \<and>
         votedFor (nodes c' b) = votedFor (nodes c b)"
  using step_Run_Grant [OF assms] by (auto simp: receiveVote_fields)

lemma grant_voter_differs:
  assumes "wf_cluster c" and "grants_ok c" and "Grant v args \<in> set (running c)"
    and "getPeer (nodes c) v (CandidateID args) = Some a"
  shows "v < cluster_size c \<and> a < cluster_size c \<and> v \<noteq> a \<and>
         node_id (nodes c a) = CandidateID args \<and>
         voted (nodes c) v (node_id (nodes c a)) (Term args)"
proof -
  from assms(2,3) have v: "v < cluster_size c" and ok: "candidate_ok c v args"
    and vo: "voted (nodes c) v (CandidateID args) (Term args)"
    by (auto simp: grants_ok_def)
  from ok obtain cand where cand: "cand < cluster_size c" "cand \<noteq> v"
    "node_id (nodes c cand) = CandidateID args" by (auto simp: candidate_ok_def)
  from getPeer_wf [OF assms(1) v cand(1,3)] assms(4) have "a = cand" by simp
  with cand v vo show ?thesis by simp
qed

lemma inv_leader_backed:
  assumes "leader_backed c" and "wf_cluster c" and "grants_ok c" and "grants_agree c"
    and "step e c = Some c'" and "regular e c"
  shows "leader_backed c'"
proof -
  have "\<exists>v. backed c' a v"
    if a: "a < cluster_size c'" and l: "state (nodes c' a) = Leader" for a
  proof -
    have a': "a < cluster_size c" and id: "node_id (nodes c' a) = node_id (nodes c a)"
      and n: "cluster_size c' = cluster_size c"
      using a step_static [OF assms(5)] by simp_all
    have nn: "node_id (nodes c a) \<noteq> - 1" using assms(2) a' by (simp add: wf_cluster_def)
    from step_leader [OF assms(5) l] consider
      (old) "state (nodes c a) = Leader" "currentTerm (nodes c' a) = currentTerm (nodes c a)"
      | (new) i v args where "e = Run i" "running c ! i = Grant v args"
          "getPeer (nodes c) v (CandidateID args) = Some a"
          "currentTerm (nodes c' a) = currentTerm (nodes c a)"
      by blast
    then show ?thesis
    proof cases
      case old
      with assms(1) a' obtain v where b: "backed c a v" by (auto simp: leader_backed_def)
      then have v: "v < cluster_size c" "v \<noteq> a"
        and vo: "voted (nodes c) v (node_id (nodes c a)) (currentTerm (nodes c a))"
        and np: "\<And>args. Grant v args \<in> set (running c) \<Longrightarrow>
              Term args = currentTerm (nodes c a) \<Longrightarrow> CandidateID args = node_id (nodes c a)"
        by (auto simp: backed_def)
      have "CandidateID args = node_id (nodes c a)"
        if g: "Grant v args \<in> set (running c')" and t: "Term args = currentTerm (nodes c a)"
        for args
      proof (cases "Grant v args \<in> set (running c)")
        case True
        then show ?thesis using np t by simp
      next
        case False
        with step_grant [OF assms(5) g] have
          1: "\<not> Term args <s currentTerm (nodes c v)" and
          2: "currentTerm (nodes c v) = Term args \<longrightarrow>
               votedFor (nodes c v) = - 1 \<or> votedFor (nodes c v) = CandidateID args"
          by blast+
        from vo 1 t have "currentTerm (nodes c v) = Term args"
          "votedFor (nodes c v) = node_id (nodes c a)" by (auto simp: voted_def)
        with 2 nn show ?thesis by auto
      qed
      moreover have "voted (nodes c') v (node_id (nodes c a)) (currentTerm (nodes c a))"
        using voted_advances [OF vo step_advances [OF assms(5,6)] nn] .
      ultimately have "backed c' a v" using v old(2) id n by (simp add: backed_def)
      then show ?thesis ..
    next
      case new
      with assms(5) have s: "step (Run i) c = Some c'" by simp
      then have "i < length (running c)" using step_enabled by fastforce
      with new(2) have g: "Grant v args \<in> set (running c)" using nth_mem by metis
      from grant_voter_differs [OF assms(2,3) g new(3)] have
        v: "v < cluster_size c" "v \<noteq> a" and ida: "node_id (nodes c a) = CandidateID args"
        and vo: "voted (nodes c) v (node_id (nodes c a)) (Term args)" by blast+
      from assms(6) new have t: "currentTerm (nodes c a) = Term args" by simp
      have "voted (nodes c') v (node_id (nodes c a)) (currentTerm (nodes c a))"
        using vo t step_Run_Grant_fields [OF s new(2), of v] by (simp add: voted_def)
      moreover have "CandidateID args' = node_id (nodes c a)"
        if g': "Grant v args' \<in> set (running c')" and t': "Term args' = currentTerm (nodes c a)"
        for args'
      proof -
        from step_grant [OF assms(5) g'] new(1) have "Grant v args' \<in> set (running c)" by auto
        with g assms(4) t t' ida show ?thesis unfolding grants_agree_def by metis
      qed
      ultimately have "backed c' a v" using v new(4) id n by (simp add: backed_def)
      then show ?thesis ..
    qed
  qed
  then show ?thesis by (simp add: leader_backed_def)
qed

lemma three_nodes:
  "n \<le> 3 \<Longrightarrow> a < n \<Longrightarrow> b < n \<Longrightarrow> u < n \<Longrightarrow> v < n \<Longrightarrow> a \<noteq> b \<Longrightarrow>
   u \<noteq> a \<Longrightarrow> u \<noteq> b \<Longrightarrow> v \<noteq> a \<Longrightarrow> v \<noteq> b \<Longrightarrow> u = (v :: nat)"
  by arith

lemma new_leader_alone:
  assumes wf: "wf_cluster c" and sv: "self_voted c" and go: "grants_ok c"
    and lb: "leader_backed c"
    and s: "step (Run i) c = Some c'" and reg: "regular (Run i) c"
    and g: "running c ! i = Grant v args"
    and p: "getPeer (nodes c) v (CandidateID args) = Some a"
    and ca: "state (nodes c a) = Candidate"
    and b: "b < cluster_size c" "b \<noteq> a" "state (nodes c b) = Leader"
    and t: "currentTerm (nodes c b) = currentTerm (nodes c a)"
  shows False
proof -
  have "i < length (running c)" using step_enabled [OF s] by simp
  with g have gin: "Grant v args \<in> set (running c)" using nth_mem by metis
  from grant_voter_differs [OF wf go gin p] have
    v: "v < cluster_size c" "v \<noteq> a" and a: "a < cluster_size c"
    and ida: "node_id (nodes c a) = CandidateID args"
    and vo: "voted (nodes c) v (node_id (nodes c a)) (Term args)" by blast+
  from reg g p have ta: "currentTerm (nodes c a) = Term args" by simp
  have ids: "node_id (nodes c a) \<noteq> node_id (nodes c b)"
    using wf a b(1,2) unfolding wf_cluster_def by blast
  have va: "votedFor (nodes c a) = node_id (nodes c a)"
    using sv a ca by (simp add: self_voted_def)
  have vb: "votedFor (nodes c b) = node_id (nodes c b)"
    using sv b(1,3) by (simp add: self_voted_def)
  from lb b(1,3) obtain u where "backed c b u" by (auto simp: leader_backed_def)
  then have u: "u < cluster_size c" "u \<noteq> b"
    and uo: "voted (nodes c) u (node_id (nodes c b)) (currentTerm (nodes c b))"
    and np: "\<And>args. Grant u args \<in> set (running c) \<Longrightarrow>
              Term args = currentTerm (nodes c b) \<Longrightarrow> CandidateID args = node_id (nodes c b)"
    by (auto simp: backed_def)
  have "u \<noteq> a"
  proof
    assume "u = a"
    with uo t va ids show False by (auto simp: voted_def)
  qed
  moreover have "v \<noteq> b"
  proof
    assume "v = b"
    with vo t ta vb ids show False by (auto simp: voted_def)
  qed
  moreover have "cluster_size c \<le> 3" using wf by (simp add: wf_cluster_def)
  ultimately have "u = v" using three_nodes [of "cluster_size c" a b u v] a b(1,2) u v by simp
  with np [of args] gin t ta have "CandidateID args = node_id (nodes c b)" by simp
  with ida ids show False by simp
qed

lemma inv_single_leader:
  assumes "single_leader c" and "wf_cluster c" and "self_voted c" and "grants_ok c"
    and "leader_backed c" and "step e c = Some c'" and "regular e c"
  shows "single_leader c'"
proof -
  have "\<not> two_leaders c' a b" for a b
  proof
    assume tl: "two_leaders c' a b"
    have n: "cluster_size c' = cluster_size c" using step_static [OF assms(6)] by simp
    from tl n have ab: "a < cluster_size c" "b < cluster_size c" "a \<noteq> b"
      and la: "state (nodes c' a) = Leader" and lb: "state (nodes c' b) = Leader"
      and t: "currentTerm (nodes c' a) = currentTerm (nodes c' b)"
      by (simp_all add: two_leaders_def)
    from step_leader [OF assms(6) la]
    have ta: "currentTerm (nodes c' a) = currentTerm (nodes c a)" by blast
    from step_leader [OF assms(6) lb]
    have tb: "currentTerm (nodes c' b) = currentTerm (nodes c b)" by blast
    from step_leader [OF assms(6) la] consider
      (old) "state (nodes c a) = Leader"
      | (new) i v args where "e = Run i" "running c ! i = Grant v args"
          "getPeer (nodes c) v (CandidateID args) = Some a" "state (nodes c a) = Candidate"
      by blast
    then show False
    proof cases
      case old
      from step_leader [OF assms(6) lb] consider
        (old') "state (nodes c b) = Leader"
        | (new') i v args where "e = Run i" "running c ! i = Grant v args"
            "getPeer (nodes c) v (CandidateID args) = Some b" "state (nodes c b) = Candidate"
        by blast
      then show False
      proof cases
        case old'
        with old ab t ta tb have "two_leaders c a b" by (simp add: two_leaders_def)
        with assms(1) show False by (simp add: single_leader_def)
      next
        case (new' i v args)
        from new'(1) assms(6,7) have "step (Run i) c = Some c'" "regular (Run i) c" by simp_all
        from new_leader_alone [OF assms(2-5) this new'(2-4) ab(1) _ old] ab(3) t ta tb
        show False by simp
      qed
    next
      case (new i v args)
      from new(1) assms(6,7) have r: "step (Run i) c = Some c'" "regular (Run i) c" by simp_all
      have "state (nodes c b) = Leader"
        using step_leader [OF assms(6) lb] new ab(3) by auto
      from new_leader_alone [OF assms(2-5) r new(2-4) ab(2) _ this] ab(3) t ta tb
      show False by simp
    qed
  qed
  then show ?thesis by (simp add: single_leader_def)
qed

lemma inv_step:
  assumes "election_inv c" and "step e c = Some c'" and "regular e c"
  shows "election_inv c'"
  using assms inv_wf [of c e c'] inv_requests [of c e c'] inv_self_voted [of c e c']
    inv_grants_ok [of c e c'] inv_grants_agree [of c e c'] inv_leader_backed [of c e c']
    inv_single_leader [of c e c']
  by (simp add: election_inv_def)

lemma inv_run:
  "election_inv c \<Longrightarrow> run evs c = Some c' \<Longrightarrow> regular_run evs c \<Longrightarrow> election_inv c'"
proof (induction evs arbitrary: c)
  case Nil
  then show ?case by simp
next
  case (Cons e evs)
  from Cons.prems(2) obtain c1 where c1: "step e c = Some c1" "run evs c1 = Some c'"
    by (auto split: option.splits)
  with Cons.prems(3) have r: "regular e c" "regular_run evs c1" by simp_all
  from inv_step [OF Cons.prems(1) c1(1) r(1)] have "election_inv c1" .
  from Cons.IH [OF this c1(2) r(2)] show ?case .
qed

lemma inv_init:
  assumes "length ids \<le> 3" and "distinct ids" and "- 1 \<notin> set ids"
  shows "election_inv (new_cluster ids rs)"
proof -
  have "wf_cluster (new_cluster ids rs)"
    using assms by (auto simp: wf_cluster_def new_cluster_def NewRaftNode_def nth_eq_iff_index_eq
        dest: nth_mem)
  moreover have "requests_ok (new_cluster ids rs)"
    by (simp add: requests_ok_def new_cluster_def NewRaftNode_def)
  moreover have "self_voted (new_cluster ids rs)"
    by (simp add: self_voted_def new_cluster_def NewRaftNode_def)
  moreover have "grants_ok (new_cluster ids rs)" "grants_agree (new_cluster ids rs)"
    by (simp_all add: grants_ok_def grants_agree_def new_cluster_def)
  moreover have "leader_backed (new_cluster ids rs)"
    by (simp add: leader_backed_def new_cluster_def NewRaftNode_def)
  moreover have "single_leader (new_cluster ids rs)"
    by (simp add: single_leader_def two_leaders_def new_cluster_def NewRaftNode_def)
  ultimately show ?thesis by (simp add: election_inv_def)
qed

subsection \<open>Single leader per term\<close>

text \<open>
  Claim C1, as stated, in the cluster of \<^verbatim>\<open>main\<close>: the execution \<open>stale_grant_trace\<close> ends
  with node 1 and node 3 both Leader in term 3. Node 1 is elected by the grant of node 2 in
  term 3; node 3 by the grant that node 2 gave it in term 1, delivered while node 3 is
  Candidate of term 3.
\<close>

theorem two_leaders_by_stale_grant:
  "(case run stale_grant_trace (main_cluster (\<lambda>a. 0)) of
      None \<Rightarrow> False
    | Some c \<Rightarrow> two_leaders c 0 2)"
  by (simp add: stale_grant_trace_def trace_defs)

text \<open>
  With four nodes two Leaders of term 1 arise although every grant is delivered in the
  term it was given for: one grant suffices, and two voters grant to two candidates.
\<close>

lemma two_leaders_in_four_nodes:
  "timely_run four_node_trace (new_cluster [1, 2, 3, 4] (\<lambda>a. 0)) \<and>
   (case run four_node_trace (new_cluster [1, 2, 3, 4] (\<lambda>a. 0)) of
      None \<Rightarrow> False
    | Some c \<Rightarrow> two_leaders c 0 1)"
  by (simp add: four_node_trace_def trace_defs max_int_def upt_rec)

text \<open>
  Under regular events the invariant holds in every state an execution reaches.
\<close>

lemma single_leader_when_regular:
  assumes "length ids \<le> 3" and "distinct ids" and "- 1 \<notin> set ids"
    and "run evs (new_cluster ids rs) = Some c"
    and "regular_run evs (new_cluster ids rs)"
  shows "\<not> two_leaders c a b"
  using inv_run [OF inv_init [OF assms(1-3)] assms(4,5)]
  by (simp add: election_inv_def single_leader_def)

subsection \<open>Terms are bounded by the number of events\<close>

lemma startElection_hbchan:
  "heartbeatChan (fst (startElection h a) b) = heartbeatChan (h b)"
  by (simp add: startElection_def Let_def)

lemma handleRequestVote_hbchan:
  "heartbeatChan (fst (handleRequestVote h a args r) b) = heartbeatChan (h b)"
  by (simp add: handleRequestVote_def Let_def)

lemma receiveVote_hbchan:
  "heartbeatChan (fst (receiveVote h a) b) = heartbeatChan (h b)"
  by (simp add: receiveVote_def)

lemma handleHeartbeat_hbchan:
  "heartbeatChan (handleHeartbeat h a hb r b) = heartbeatChan (h b)"
  by (simp add: handleHeartbeat_def)

lemma handleHeartbeat_term_origin:
  "currentTerm (handleHeartbeat h a hb r b) = currentTerm (h b) \<or>
   currentTerm (handleHeartbeat h a hb r b) = HbTerm hb"
  by (simp add: handleHeartbeat_def)

lemma sendHeartbeats_hbchan:
  "sendHeartbeats h g = Some (h', gs) \<Longrightarrow> hb \<in> set (heartbeatChan (h' a)) \<Longrightarrow>
   hb \<in> set (heartbeatChan (h a)) \<or>
   (\<exists>b t ps. g = HeartbeatsBatch b t ps \<and> HbTerm hb = t)"
  by (induction h g rule: sendHeartbeats.induct) (auto split: if_splits)

lemma sendHeartbeats_batch:
  "sendHeartbeats h g = Some (h', gs) \<Longrightarrow> HeartbeatsBatch b t ps \<in> set gs \<Longrightarrow>
   (\<exists>ps'. g = HeartbeatsBatch b t ps') \<or> (g = Heartbeats b \<and> t = currentTerm (h b))"
  by (induction h g rule: sendHeartbeats.induct) (auto split: if_splits)

lemma receiveVote_no_batch: "HeartbeatsBatch b t ps \<notin> set (snd (receiveVote h a))"
  by (simp add: receiveVote_def)

lemma step_Run_cases [consumes 1, case_names send panic grant heartbeats]:
  assumes "step (Run i) c = Some c'"
  obtains
    (send) p args where "running c ! i = SendVoteReq p args"
      "c' = c\<lparr>nodes := (nodes c)(p := (nodes c p)\<lparr>voteReqChan := voteReqChan (nodes c p) @ [args]\<rparr>),
                running := remove_nth i (running c)\<rparr>"
  | (panic) v args where "running c ! i = Grant v args"
      "c' = c\<lparr>panicked := Some NilPointerDereference\<rparr>"
  | (grant) v args cand where "running c ! i = Grant v args"
      "getPeer (nodes c) v (CandidateID args) = Some cand"
      "c' = c\<lparr>nodes := fst (receiveVote (nodes c) cand),
              running := remove_nth i (running c) @ snd (receiveVote (nodes c) cand)\<rparr>"
  | (heartbeats) h gs where "sendHeartbeats (nodes c) (running c ! i) = Some (h, gs)"
      "c' = c\<lparr>nodes := h, running := remove_nth i (running c) @ gs\<rparr>"
proof (cases "running c ! i")
  case (SendVoteReq p args)
  from this step_Run_SendVoteReq [OF assms this] show thesis by (rule send)
next
  case (Grant v args)
  from step_Run_Grant [OF assms this] Grant show thesis using panic grant by blast
next
  case (Heartbeats a)
  with step_Run_Heartbeats [OF assms, of a] show thesis using heartbeats by blast
next
  case (HeartbeatsBatch a t ps)
  with step_Run_Heartbeats [OF assms, of a t ps] show thesis using heartbeats by blast
qed

lemma step_term_origin:
  assumes "step e c = Some c'"
  shows "currentTerm (nodes c' a) = currentTerm (nodes c a) \<or>
     currentTerm (nodes c' a) = currentTerm (nodes c a) + 1 \<or>
     (\<exists>args \<in> set (voteReqChan (nodes c a)). currentTerm (nodes c' a) = Term args) \<or>
     (\<exists>hb \<in> set (heartbeatChan (nodes c a)). currentTerm (nodes c' a) = HbTerm hb)"
proof (cases e)
  case (Timeout b)
  with assms have s: "step (Timeout b) c = Some c'" by simp
  show ?thesis
  proof (cases "a = b")
    case False
    then show ?thesis using step_Timeout [OF s] by simp
  next
    case True
    then show ?thesis using step_Timeout [OF s]
      by (cases "state (nodes c b) = Leader") simp_all
  qed
next
  case (HandleRequestVote b r)
  with assms have s: "step (HandleRequestVote b r) c = Some c'" by simp
  show ?thesis
  proof (cases "a = b")
    case False
    then show ?thesis using step_HandleRequestVote_other [OF s, of a] by simp
  next
    case True
    from s show ?thesis
    proof (cases rule: step_HandleRequestVote_cases)
      case (higher args)
      then have "args \<in> set (voteReqChan (nodes c b))" by simp
      with higher(3) True show ?thesis by blast
    next
      case (grant args)
      then show ?thesis using True by simp
    next
      case (deny args)
      then show ?thesis using True by simp
    qed
  qed
next
  case (HandleHeartbeat b r)
  with assms have s: "step (HandleHeartbeat b r) c = Some c'" by simp
  from step_HandleHeartbeat_eq [OF s] obtain hb rest where
    q: "heartbeatChan (nodes c b) = hb # rest" and
    c': "c' = c\<lparr>nodes := handleHeartbeat
                  ((nodes c)(b := (nodes c b)\<lparr>heartbeatChan := rest\<rparr>)) b hb r\<rparr>"
    by blast
  let ?h = "(nodes c)(b := (nodes c b)\<lparr>heartbeatChan := rest\<rparr>)"
  have t: "currentTerm (?h a) = currentTerm (nodes c a)" by simp
  have "hb \<in> set (heartbeatChan (nodes c b))" using q by simp
  moreover have "a \<noteq> b \<Longrightarrow> currentTerm (nodes c' a) = currentTerm (nodes c a)"
    using step_HandleHeartbeat [OF s] by simp
  moreover have "currentTerm (nodes c' a) = currentTerm (nodes c a) \<or>
      currentTerm (nodes c' a) = HbTerm hb"
    using handleHeartbeat_term_origin [of ?h b hb r a] t unfolding c' by simp
  ultimately show ?thesis by (cases "a = b") auto
next
  case (Run i)
  with assms have s: "step (Run i) c = Some c'" by simp
  from s have "currentTerm (nodes c' a) = currentTerm (nodes c a)"
  proof (cases rule: step_Run_cases)
    case (send p args)
    then show ?thesis by simp
  next
    case panic
    then show ?thesis by simp
  next
    case (grant v args cand)
    then show ?thesis by (simp add: receiveVote_fields)
  next
    case (heartbeats h gs)
    then show ?thesis using sendHeartbeats_core [of "nodes c" "running c ! i" h gs a] by simp
  qed
  then show ?thesis by simp
qed

lemma step_send_term:
  assumes "step e c = Some c'" and "SendVoteReq p args \<in> set (running c')"
  shows "SendVoteReq p args \<in> set (running c) \<or>
     (\<exists>a. Term args = currentTerm (nodes c a) + 1)"
proof (cases e)
  case (Timeout a)
  with assms have s: "step (Timeout a) c = Some c'" by simp
  from assms(2) step_Timeout_running [OF s] show ?thesis
    by (auto split: if_splits)
next
  case (HandleRequestVote a r)
  then show ?thesis using step_send [OF assms] by simp
next
  case (HandleHeartbeat a r)
  then show ?thesis using step_send [OF assms] by simp
next
  case (Run i)
  then show ?thesis using step_send [OF assms] by simp
qed

lemma step_hbchan:
  assumes "step e c = Some c'" and "hb \<in> set (heartbeatChan (nodes c' a))"
  shows "hb \<in> set (heartbeatChan (nodes c a)) \<or>
     (\<exists>b t ps. HeartbeatsBatch b t ps \<in> set (running c) \<and> HbTerm hb = t)"
proof (cases e)
  case (Timeout b)
  with assms have s: "step (Timeout b) c = Some c'" by simp
  let ?h = "(nodes c)(b := (nodes c b)\<lparr>electionTimer := Some Fired\<rparr>)"
  have "heartbeatChan (?h a) = heartbeatChan (nodes c a)" by simp
  with step_Timeout_eq [OF s] startElection_hbchan [of ?h b a]
  have "heartbeatChan (nodes c' a) = heartbeatChan (nodes c a)" by simp
  with assms(2) show ?thesis by simp
next
  case (HandleRequestVote b r)
  with assms have s: "step (HandleRequestVote b r) c = Some c'" by simp
  from step_HandleRequestVote_eq [OF s] obtain args rest where
    c': "c' = c\<lparr>nodes := fst (handleRequestVote
                  ((nodes c)(b := (nodes c b)\<lparr>voteReqChan := rest\<rparr>)) b args r),
              running := running c @ snd (snd (handleRequestVote
                  ((nodes c)(b := (nodes c b)\<lparr>voteReqChan := rest\<rparr>)) b args r))\<rparr>"
    by blast
  let ?h = "(nodes c)(b := (nodes c b)\<lparr>voteReqChan := rest\<rparr>)"
  have "heartbeatChan (?h a) = heartbeatChan (nodes c a)" by simp
  with handleRequestVote_hbchan [of ?h b args r a]
  have "heartbeatChan (nodes c' a) = heartbeatChan (nodes c a)" unfolding c' by simp
  with assms(2) show ?thesis by simp
next
  case (HandleHeartbeat b r)
  with assms have s: "step (HandleHeartbeat b r) c = Some c'" by simp
  from step_HandleHeartbeat_eq [OF s] obtain hb0 rest where
    q: "heartbeatChan (nodes c b) = hb0 # rest" and
    c': "c' = c\<lparr>nodes := handleHeartbeat
                  ((nodes c)(b := (nodes c b)\<lparr>heartbeatChan := rest\<rparr>)) b hb0 r\<rparr>"
    by blast
  let ?h = "(nodes c)(b := (nodes c b)\<lparr>heartbeatChan := rest\<rparr>)"
  have "set (heartbeatChan (?h a)) \<subseteq> set (heartbeatChan (nodes c a))" using q by auto
  with handleHeartbeat_hbchan [of ?h b hb0 r a]
  have "set (heartbeatChan (nodes c' a)) \<subseteq> set (heartbeatChan (nodes c a))"
    unfolding c' by simp
  with assms(2) show ?thesis by auto
next
  case (Run i)
  with assms have s: "step (Run i) c = Some c'" by simp
  have i: "i < length (running c)" using step_enabled [OF s] by simp
  from s show ?thesis
  proof (cases rule: step_Run_cases)
    case (send p args)
    then show ?thesis using assms(2) by (simp split: if_splits)
  next
    case panic
    then show ?thesis using assms(2) by simp
  next
    case (grant v args cand)
    then show ?thesis using assms(2) by (simp add: receiveVote_hbchan)
  next
    case (heartbeats h gs)
    from sendHeartbeats_hbchan [OF heartbeats(1), of hb a] assms(2) heartbeats(2)
    consider "hb \<in> set (heartbeatChan (nodes c a))"
      | b t ps where "running c ! i = HeartbeatsBatch b t ps" "HbTerm hb = t"
      by auto
    then show ?thesis
    proof cases
      case 1
      then show ?thesis by simp
    next
      case 2
      with i have "HeartbeatsBatch b t ps \<in> set (running c)" using nth_mem by metis
      with 2 show ?thesis by blast
    qed
  qed
qed

lemma step_batch:
  assumes "step e c = Some c'" and "HeartbeatsBatch b t ps \<in> set (running c')"
  shows "(\<exists>ps'. HeartbeatsBatch b t ps' \<in> set (running c)) \<or> t = currentTerm (nodes c b)"
proof (cases e)
  case (Timeout a)
  with assms have s: "step (Timeout a) c = Some c'" by simp
  from assms(2) step_Timeout_running [OF s] show ?thesis
    by (auto split: if_splits)
next
  case (HandleRequestVote a r)
  with assms have s: "step (HandleRequestVote a r) c = Some c'" by simp
  from step_HandleRequestVote_running [OF s] assms(2) show ?thesis by auto
next
  case (HandleHeartbeat a r)
  with assms have s: "step (HandleHeartbeat a r) c = Some c'" by simp
  from step_HandleHeartbeat [OF s] have "running c' = running c" by simp
  with assms(2) show ?thesis by auto
next
  case (Run i)
  with assms have s: "step (Run i) c = Some c'" by simp
  have i: "i < length (running c)" using step_enabled [OF s] by simp
  from s show ?thesis
  proof (cases rule: step_Run_cases)
    case (send p args)
    then show ?thesis using assms(2) by (auto dest: in_remove_nth)
  next
    case panic
    then show ?thesis using assms(2) by auto
  next
    case (grant v args cand)
    then show ?thesis using assms(2) receiveVote_no_batch [of b t ps "nodes c" cand]
      by (auto dest: in_remove_nth)
  next
    case (heartbeats h gs)
    show ?thesis
    proof (cases "HeartbeatsBatch b t ps \<in> set gs")
      case False
      with heartbeats(2) assms(2) show ?thesis by (auto dest: in_remove_nth)
    next
      case True
      from sendHeartbeats_batch [OF heartbeats(1) True] consider
        ps' where "running c ! i = HeartbeatsBatch b t ps'"
        | "t = currentTerm (nodes c b)" by blast
      then show ?thesis
      proof cases
        case 1
        with i have "HeartbeatsBatch b t ps' \<in> set (running c)" using nth_mem by metis
        then show ?thesis by blast
      next
        case 2
        then show ?thesis by simp
      qed
    qed
  qed
qed

lemma bounded_step:
  assumes "bounded k c" and "k < 2 ^ 63 - 1" and "step e c = Some c'"
  shows "bounded (k + 1) c'"
proof -
  from assms(1) have
    b1: "\<And>a. sint (currentTerm (nodes c a)) \<le> k" and
    b2: "\<And>a args. args \<in> set (voteReqChan (nodes c a)) \<Longrightarrow> sint (Term args) \<le> k" and
    b3: "\<And>a hb. hb \<in> set (heartbeatChan (nodes c a)) \<Longrightarrow> sint (HbTerm hb) \<le> k" and
    b4: "\<And>p args. SendVoteReq p args \<in> set (running c) \<Longrightarrow> sint (Term args) \<le> k" and
    b5: "\<And>a t ps. HeartbeatsBatch a t ps \<in> set (running c) \<Longrightarrow> sint t \<le> k"
    unfolding bounded_def by blast+
  have succ: "sint (currentTerm (nodes c a) + 1) \<le> k + 1" for a
    using b1 [of a] assms(2) sint_succ [of "currentTerm (nodes c a)"] by simp
  have 1: "sint (currentTerm (nodes c' a)) \<le> k + 1" for a
    using step_term_origin [OF assms(3), of a] b1 [of a] succ [of a] b2 [of _ a] b3 [of _ a]
    by fastforce
  have 2: "sint (Term args) \<le> k + 1" if "args \<in> set (voteReqChan (nodes c' a))" for a args
    using step_chan [OF assms(3) that] b2 [of args a] b4 [of a args] by fastforce
  have 3: "sint (HbTerm hb) \<le> k + 1" if "hb \<in> set (heartbeatChan (nodes c' a))" for a hb
    using step_hbchan [OF assms(3) that] b3 [of hb a] b5 by fastforce
  have 4: "sint (Term args) \<le> k + 1" if "SendVoteReq p args \<in> set (running c')" for p args
    using step_send_term [OF assms(3) that] b4 [of p args] succ by fastforce
  have 5: "sint t \<le> k + 1" if "HeartbeatsBatch a t ps \<in> set (running c')" for a t ps
    using step_batch [OF assms(3) that] b5 [of a t] b1 [of a] by fastforce
  from 1 2 3 4 5 show ?thesis unfolding bounded_def by blast
qed

lemma bounded_init: "bounded 0 (new_cluster ids rs)"
  by (simp add: bounded_def new_cluster_def NewRaftNode_def)

lemma regular_timely:
  "regular e c \<longleftrightarrow> timely e c \<and> (\<forall>a. e = Timeout a \<longrightarrow> currentTerm (nodes c a) \<noteq> max_int)"
  by (cases e) simp_all

lemma timely_run_regular:
  "bounded k c \<Longrightarrow> timely_run evs c \<Longrightarrow> k + int (length evs) < 2 ^ 63 \<Longrightarrow>
   regular_run evs c"
proof (induction evs arbitrary: k c)
  case Nil
  then show ?case by simp
next
  case (Cons e evs)
  from Cons.prems(2) obtain c1 where c1: "step e c = Some c1" and t: "timely e c"
    and r: "timely_run evs c1" by (auto split: option.splits)
  from Cons.prems(3) have k: "k < 2 ^ 63 - 1" by simp
  have "currentTerm (nodes c a) \<noteq> max_int" for a
  proof -
    from Cons.prems(1) have "sint (currentTerm (nodes c a)) \<le> k" by (simp add: bounded_def)
    with k show ?thesis by (simp add: ne_max_int)
  qed
  with t have "regular e c" by (simp add: regular_timely)
  moreover from Cons.IH [OF bounded_step [OF Cons.prems(1) k c1] r] Cons.prems(3)
  have "regular_run evs c1" by simp
  ultimately show ?case using c1 by simp
qed

text \<open>
  Claim C1, amended: in a cluster of at most three nodes with distinct ids other than
  \<open>-1\<close> (such as the cluster of \<^verbatim>\<open>main\<close>), in every state reached by an interleaving of
  fewer than \<open>2^63\<close> election timeouts, RequestVote handlings, vote grants, Heartbeat
  handlings and goroutine steps in which every vote grant is delivered while its candidate
  is in the term of the granted RequestVote, no two distinct nodes are Leader with equal
  \<^verbatim>\<open>currentTerm\<close>.
\<close>

theorem single_leader_when_timely:
  assumes "length ids \<le> 3" and "distinct ids" and "- 1 \<notin> set ids"
    and "run evs (new_cluster ids rs) = Some c"
    and "timely_run evs (new_cluster ids rs)"
    and "length evs < 2 ^ 63"
  shows "\<not> two_leaders c a b"
proof -
  from assms(6) have "0 + int (length evs) < 2 ^ 63"
    by (metis add_0 of_nat_less_iff of_nat_numeral of_nat_power)
  from timely_run_regular [OF bounded_init assms(5) this]
  have "regular_run evs (new_cluster ids rs)" .
  from inv_run [OF inv_init [OF assms(1-3)] assms(4) this]
  show ?thesis by (simp add: election_inv_def single_leader_def)
qed

text \<open>
  Claim C1, the amended statement at the election of node 1 in the cluster of \<^verbatim>\<open>main\<close>:
  every grant of the execution is timely, node 1 is Leader at its end, and no other node
  is Leader of its term.
\<close>

theorem single_leader_when_timely_witness:
  "length [1, 2, 3 :: go_int] \<le> 3 \<and> distinct [1, 2, 3 :: go_int] \<and>
   - 1 \<notin> set [1, 2, 3 :: go_int] \<and>
   timely_run election_trace (main_cluster (\<lambda>a. 0)) \<and>
   length election_trace < 2 ^ 63 \<and>
   (case run election_trace (main_cluster (\<lambda>a. 0)) of
      None \<Rightarrow> False
    | Some c \<Rightarrow> state (nodes c 0) = Leader \<and> currentTerm (nodes c 0) = 1 \<and>
               \<not> two_leaders c 0 1 \<and> \<not> two_leaders c 0 2)"
proof -
  have i: "length [1, 2, 3 :: go_int] \<le> 3" "distinct [1, 2, 3 :: go_int]"
    "- 1 \<notin> set [1, 2, 3 :: go_int]"
    by simp_all
  have r: "timely_run election_trace (new_cluster [1, 2, 3] (\<lambda>a. 0))"
    by (simp add: election_trace_def trace_defs)
  have l: "length election_trace < 2 ^ 63"
    by (simp add: election_trace_def)
  have "\<exists>c. run election_trace (new_cluster [1, 2, 3] (\<lambda>a. 0)) = Some c \<and>
     state (nodes c 0) = Leader \<and> currentTerm (nodes c 0) = 1"
    by (simp add: election_trace_def trace_defs)
  then obtain c where c: "run election_trace (new_cluster [1, 2, 3] (\<lambda>a. 0)) = Some c"
    "state (nodes c 0) = Leader" "currentTerm (nodes c 0) = 1"
    by blast
  from single_leader_when_timely [OF i c(1) r l]
  have "\<not> two_leaders c 0 1" "\<not> two_leaders c 0 2"
    by simp_all
  with i r l c show ?thesis by (simp add: main_cluster_def)
qed

section \<open>Consequences for a single node and for a demoted node\<close>

lemma single_inv_step:
  assumes "single_inv c" and "step e c = Some c'"
  shows "single_inv c'"
proof (cases e)
  case (Timeout a)
  with assms(2) have s: "step (Timeout a) c = Some c'" by simp
  from step_Timeout [OF s] assms(1) have a: "a = 0" by (simp add: single_inv_def)
  from step_Timeout [OF s] have
    st: "state (nodes c' a) \<noteq> Leader \<or> state (nodes c a) = Leader"
    by (cases "state (nodes c a) = Leader") simp_all
  let ?h = "(nodes c)(a := (nodes c a)\<lparr>electionTimer := Some Fired\<rparr>)"
  have hb: "heartbeatChan (nodes c' 0) = heartbeatChan (nodes c 0)"
    using step_Timeout_eq [OF s] startElection_hbchan [of ?h a 0] a by simp
  from step_Timeout [OF s] step_Timeout_running [OF s] assms(1) a st hb show ?thesis
    by (simp add: single_inv_def)
next
  case (HandleRequestVote a r)
  with assms show ?thesis by (auto simp: step_def single_inv_def split: if_splits)
next
  case (HandleHeartbeat a r)
  with assms show ?thesis by (auto simp: step_def single_inv_def split: if_splits)
next
  case (Run i)
  with assms show ?thesis by (auto simp: step_def single_inv_def split: if_splits)
qed

lemma single_inv_run:
  "single_inv c \<Longrightarrow> run evs c = Some c' \<Longrightarrow> single_inv c'"
proof (induction evs arbitrary: c)
  case Nil
  then show ?case by simp
next
  case (Cons e evs)
  from Cons.prems(2) obtain c1 where "step e c = Some c1" "run evs c1 = Some c'"
    by (auto split: option.splits)
  with Cons.IH [OF single_inv_step [OF Cons.prems(1)]] show ?case by simp
qed

text \<open>
  In support of claim C2 as amended: in a cluster of one node no execution produces a
  Leader.
\<close>

lemma single_node_never_elected:
  "run evs single_cluster = Some c \<Longrightarrow> state (nodes c 0) \<noteq> Leader"
proof -
  have "single_inv single_cluster"
    by (simp add: single_inv_def single_cluster_def new_cluster_def NewRaftNode_def)
  then show "run evs single_cluster = Some c \<Longrightarrow> state (nodes c 0) \<noteq> Leader"
    using single_inv_run [of single_cluster evs c] by (simp add: single_inv_def)
qed

lemma sum_remove_nth:
  "i < length xs \<Longrightarrow>
   sum_list (map f (remove_nth i xs)) + f (xs ! i) = (sum_list (map f xs) :: nat)"
proof -
  assume i: "i < length xs"
  then have "xs = take i xs @ xs ! i # drop (Suc i) xs" by (simp add: id_take_nth_drop)
  then have "sum_list (map f xs) =
      sum_list (map f (take i xs @ xs ! i # drop (Suc i) xs))" by simp
  then show ?thesis by (simp add: remove_nth_def)
qed

lemma sendHeartbeats_pending:
  "sendHeartbeats h g = Some (h', gs) \<Longrightarrow> state (h a) \<noteq> Leader \<Longrightarrow>
   (if sends_now a h g then 1 else 0) + sum_list (map (batch_sends a) gs) \<le> batch_sends a g"
  by (induction h g rule: sendHeartbeats.induct) (auto split: if_splits)

lemma pending_step:
  assumes "state (nodes c a) \<noteq> Leader" and "step e c = Some c'"
  shows "(if sends_heartbeat a e c then 1 else 0) + pending_sends a c' \<le> pending_sends a c"
proof (cases e)
  case (Timeout b)
  with assms have s: "step (Timeout b) c = Some c'" by simp
  have "sum_list (map (batch_sends a) (map (\<lambda>p. SendVoteReq p (f p)) ps)) = 0" for f ps
    by (induction ps) simp_all
  with step_Timeout_running [OF s] Timeout show ?thesis
    by (simp add: pending_sends_def)
next
  case (HandleRequestVote b r)
  with assms have s: "step (HandleRequestVote b r) c = Some c'" by simp
  from step_HandleRequestVote_running [OF s] HandleRequestVote show ?thesis
    by (auto simp: pending_sends_def)
next
  case (HandleHeartbeat b r)
  with assms have s: "step (HandleHeartbeat b r) c = Some c'" by simp
  from step_HandleHeartbeat [OF s] HandleHeartbeat show ?thesis
    by (simp add: pending_sends_def)
next
  case (Run i)
  with assms have s: "step (Run i) c = Some c'" by simp
  have i: "i < length (running c)" using step_enabled [OF s] by simp
  note sum = sum_remove_nth [OF i, of "batch_sends a"]
  from s show ?thesis
  proof (cases rule: step_Run_cases)
    case (send p args)
    with sum Run show ?thesis by (simp add: pending_sends_def)
  next
    case (panic v args)
    with Run show ?thesis by (simp add: pending_sends_def)
  next
    case (grant v args cand)
    have "sum_list (map (batch_sends a) (snd (receiveVote (nodes c) cand))) = 0"
      by (simp add: receiveVote_def)
    with grant sum Run show ?thesis by (simp add: pending_sends_def)
  next
    case (heartbeats h gs)
    from sendHeartbeats_pending [OF heartbeats(1) assms(1)] sum heartbeats(2) Run i
    show ?thesis by (simp add: pending_sends_def)
  qed
qed

text \<open>
  Along an execution in which node \<open>a\<close> is never Leader, the heartbeats that its goroutines
  send, together with those of the batches still in progress at the end, are at most those
  of the batches that were in progress at the start: no goroutine of the node begins a
  batch.
\<close>

lemma pending_run:
  "never_leader a evs c \<Longrightarrow> run evs c = Some c' \<Longrightarrow>
   heartbeats_sent a evs c + pending_sends a c' \<le> pending_sends a c"
proof (induction evs arbitrary: c)
  case Nil
  then show ?case by simp
next
  case (Cons e evs)
  show ?case
  proof (cases "step e c")
    case None
    with Cons.prems show ?thesis by simp
  next
    case (Some c1)
    with Cons.prems have n: "state (nodes c a) \<noteq> Leader" "never_leader a evs c1"
      and r: "run evs c1 = Some c'" by simp_all
    from Cons.IH [OF n(2) r] pending_step [OF n(1) Some] Some show ?thesis by simp
  qed
qed

lemma demoted_node_is_silent:
  "never_leader a evs c \<Longrightarrow> run evs c = Some c' \<Longrightarrow> pending_sends a c = 0 \<Longrightarrow>
   heartbeats_sent a evs c = 0 \<and> pending_sends a c' = 0"
  using pending_run [of a evs c c'] by simp




end
